theory Spec2Isabelle
  imports Main "HOL-Library.Sublist"
begin

section \<open>Python strings\<close>

text \<open>
  A Python \<open>str\<close> is modelled as a \<open>string\<close>: a list of characters with code points
  below 256. Indices, sizes and overlaps are Python's unbounded integers (\<open>int\<close>).
\<close>

definition is_space :: "char \<Rightarrow> bool" where
  \<comment> \<open>\<open>str.isspace\<close> on one character, which is also what the regular expression
      \<open>\s\<close> matches on a \<open>str\<close> pattern: tab to carriage return, the four separators
      28 to 31, the space, NEL (133) and the no-break space (160).\<close>
  "is_space c =
     (let n = (of_char c :: nat)
      in (9 \<le> n \<and> n \<le> 13) \<or> (28 \<le> n \<and> n \<le> 32) \<or> n = 133 \<or> n = 160)"

definition strip :: "string \<Rightarrow> string" where
  \<comment> \<open>\<open>s.strip()\<close>\<close>
  "strip s = rev (dropWhile is_space (rev (dropWhile is_space s)))"

function re_sub_ws :: "string \<Rightarrow> string" where
  \<comment> \<open>\<open>re.sub(r'\s+', ' ', s)\<close>: scanning from the left, every maximal run of
      whitespace is replaced by one space.\<close>
  "re_sub_ws [] = []"
| "re_sub_ws (c # cs) =
     (if is_space c then CHR '' '' # re_sub_ws (dropWhile is_space cs)
      else c # re_sub_ws cs)"
  by pat_completeness auto
termination
  by (relation "measure length") (auto simp: length_dropWhile_le less_Suc_eq_le)

definition adjust_index :: "int \<Rightarrow> int \<Rightarrow> int" where
  \<comment> \<open>The bound of a slice \<open>s[a:b]\<close> for a string of length \<open>n\<close>: a negative bound
      counts from the end, and the result is clipped to \<open>0..n\<close>.\<close>
  "adjust_index n i = (if i < 0 then max 0 (i + n) else min i n)"

definition py_slice :: "'a list \<Rightarrow> int \<Rightarrow> int \<Rightarrow> 'a list" where
  \<comment> \<open>\<open>s[a:b]\<close>\<close>
  "py_slice s a b =
     (let n = int (length s); a' = adjust_index n a; b' = adjust_index n b
      in take (nat (b' - a')) (drop (nat a') s))"

definition rfind_char :: "char \<Rightarrow> string \<Rightarrow> int \<Rightarrow> int \<Rightarrow> int" where
  \<comment> \<open>\<open>s.rfind(c, a, b)\<close> for a one-character \<open>c\<close>: the highest index in the
      slice bounds holding \<open>c\<close>, or -1.\<close>
  "rfind_char c s a b =
     (let n = int (length s); a' = adjust_index n a; b' = adjust_index n b
      in case filter (\<lambda>i. a' \<le> int i \<and> int i < b' \<and> s ! i = c) (rev [0..<length s]) of
           [] \<Rightarrow> -1
         | i # _ \<Rightarrow> int i)"

section \<open>PDFLoader.chunk\_text\<close>

definition window_end :: "string \<Rightarrow> int \<Rightarrow> int \<Rightarrow> int" where
  \<comment> \<open>The value of \<open>end\<close> when the chunk starting at \<open>start\<close> is appended.\<close>
  "window_end text chunk_size start =
     (let end = start + chunk_size
      in if end < int (length text) then
           (let last_period = max (max (rfind_char CHR ''.'' text start end)
                                       (rfind_char CHR ''?'' text start end))
                                  (rfind_char CHR ''!'' text start end)
            in if last_period \<noteq> -1 \<and> last_period > start + chunk_size div 2
               then last_period + 1
               else (let last_space = rfind_char CHR '' '' text start end
                     in if last_space \<noteq> -1 then last_space + 1 else end))
         else end)"

definition next_start :: "string \<Rightarrow> int \<Rightarrow> int \<Rightarrow> int \<Rightarrow> int" where
  "next_start text chunk_size overlap start =
     (let start' = window_end text chunk_size start - overlap
      in if start' < 0 then 0 else start')"

definition chunk_at :: "string \<Rightarrow> int \<Rightarrow> int \<Rightarrow> string" where
  "chunk_at text chunk_size start =
     strip (py_slice text start (window_end text chunk_size start))"

text \<open>
  The \<open>while\<close> loop, with fuel: one unit per iteration, \<open>None\<close> when the fuel runs out
  before the loop condition fails.
\<close>

primrec chunk_loop ::
  "nat \<Rightarrow> string \<Rightarrow> int \<Rightarrow> int \<Rightarrow> int \<Rightarrow> string list \<Rightarrow> string list option" where
  "chunk_loop 0 text chunk_size overlap start chunks =
     (if start < int (length text) then None else Some chunks)"
| "chunk_loop (Suc fuel) text chunk_size overlap start chunks =
     (if start < int (length text) then
        chunk_loop fuel text chunk_size overlap
          (next_start text chunk_size overlap start)
          (chunks @ [chunk_at text chunk_size start])
      else Some chunks)"

definition clean_text :: "string \<Rightarrow> string" where
  \<comment> \<open>\<open>re.sub(r'\s+', ' ', text).strip()\<close>\<close>
  "clean_text text = strip (re_sub_ws text)"

definition chunk_text :: "nat \<Rightarrow> string \<Rightarrow> int \<Rightarrow> int \<Rightarrow> string list option" where
  "chunk_text fuel text chunk_size overlap =
     (let text = clean_text text
      in if int (length text) \<le> chunk_size then Some [text]
         else chunk_loop fuel text chunk_size overlap 0 [])"


section \<open>Errors\<close>

datatype py_error =
    ValueError string
  | IndexError
  | ExternalError string  \<comment> \<open>an exception raised by an external service or library\<close>

definition py_get :: "'a list \<Rightarrow> nat \<Rightarrow> py_error + 'a" where
  \<comment> \<open>\<open>xs[i]\<close> for an index that is not negative\<close>
  "py_get xs i = (if i < length xs then Inr (xs ! i) else Inl IndexError)"

section \<open>GeminiInterface\<close>

datatype genai_call = Configure string | GenerativeModel string

record gemini_interface =
  model :: string
  embedding_model :: string

definition gemini_init ::
  "(string \<rightharpoonup> string) \<Rightarrow> (py_error + gemini_interface) \<times> genai_call list" where
  \<comment> \<open>\<open>GeminiInterface.__init__\<close> in the environment \<open>env\<close> (\<open>os.getenv\<close> is \<open>None\<close> on an
      unset variable, and \<open>not api_key\<close> holds for \<open>None\<close> and for the empty string).
      The second component lists the calls made to the \<open>genai\<close> library, in order.\<close>
  "gemini_init env =
     (case env ''GEMINI_API_KEY'' of
        None \<Rightarrow> (Inl (ValueError ''GEMINI_API_KEY environment variable not set''), [])
      | Some api_key \<Rightarrow>
          if api_key = [] then
            (Inl (ValueError ''GEMINI_API_KEY environment variable not set''), [])
          else
            (Inr \<lparr>model = ''gemini-1.0-pro'', embedding_model = ''embedding-001''\<rparr>,
             [Configure api_key, GenerativeModel ''gemini-1.0-pro'']))"

fun get_embeddings :: "(string \<Rightarrow> py_error + 'e) \<Rightarrow> string list \<Rightarrow> py_error + 'e list" where
  \<comment> \<open>\<open>embed_content\<close> is the external embedding call; its first failure ends the loop.\<close>
  "get_embeddings embed_content [] = Inr []"
| "get_embeddings embed_content (text # texts) =
     (case embed_content text of
        Inl e \<Rightarrow> Inl e
      | Inr embedding \<Rightarrow>
          (case get_embeddings embed_content texts of
             Inl e \<Rightarrow> Inl e
           | Inr embeddings \<Rightarrow> Inr (embedding # embeddings)))"

section \<open>ChromaDBManager.add\_documents\<close>

definition digit_char :: "nat \<Rightarrow> char" where
  "digit_char d = char_of (48 + d)"

function str_nat :: "nat \<Rightarrow> string" where
  \<comment> \<open>\<open>str(i)\<close>, as the f-string \<open>f"doc_{i}"\<close> formats an index\<close>
  "str_nat n = (if n < 10 then [digit_char n] else str_nat (n div 10) @ [digit_char (n mod 10)])"
  by pat_completeness auto
termination
  by (relation "measure id") auto

declare str_nat.simps [simp del]

record ('e, 'm) add_args =
  arg_embeddings :: "'e list"
  arg_documents :: "string list"
  arg_metadatas :: "'m list option"
  arg_ids :: "string list"

definition add_documents ::
  "(string \<Rightarrow> py_error + 'e) \<Rightarrow> string list \<Rightarrow> 'm list option \<Rightarrow> string list option
   \<Rightarrow> py_error + ('e, 'm) add_args" where
  \<comment> \<open>The arguments with which \<open>collection.add\<close> is called, or the error of the
      embedding call.\<close>
  "add_documents embed_content documents metadatas ids =
     (case get_embeddings embed_content documents of
        Inl e \<Rightarrow> Inl e
      | Inr embeddings \<Rightarrow>
          (let ids = (case ids of
                        None \<Rightarrow> map (\<lambda>i. ''doc_'' @ str_nat i) [0..<length documents]
                      | Some given \<Rightarrow> given)
           in Inr \<lparr>arg_embeddings = embeddings, arg_documents = documents,
                   arg_metadatas = metadatas, arg_ids = ids\<rparr>))"

section \<open>RAGChain.retrieve\<close>

record ('v, 'd) query_result =
  res_ids :: "string list list"
  res_documents :: "string list list"
  res_metadatas :: "(string \<times> 'v) list option list list option"
  res_distances :: "'d list list"

record ('v, 'd) retrieved_doc =
  doc_id :: string
  document :: string
  metadata :: "(string \<times> 'v) list option"  \<comment> \<open>a dictionary, or \<open>None\<close> as the store gives it\<close>
  distance :: 'd

definition truthy :: "'a list option \<Rightarrow> bool" where
  \<comment> \<open>the truth value of an optional list: \<open>None\<close> and the empty list are false\<close>
  "truthy x = (case x of None \<Rightarrow> False | Some xs \<Rightarrow> xs \<noteq> [])"

definition retrieved_at ::
  "('v, 'd) query_result \<Rightarrow> nat \<Rightarrow> py_error + ('v, 'd) retrieved_doc" where
  \<comment> \<open>the dictionary built for index \<open>i\<close>; the fields are read in the order of the source\<close>
  "retrieved_at results i =
     (case py_get (res_ids results) 0 of Inl e \<Rightarrow> Inl e | Inr ids0 \<Rightarrow>
      case py_get ids0 i of Inl e \<Rightarrow> Inl e | Inr the_id \<Rightarrow>
      case py_get (res_documents results) 0 of Inl e \<Rightarrow> Inl e | Inr docs0 \<Rightarrow>
      case py_get docs0 i of Inl e \<Rightarrow> Inl e | Inr the_doc \<Rightarrow>
      case (if truthy (res_metadatas results)
            then (case py_get (the (res_metadatas results)) 0 of
                    Inl e \<Rightarrow> Inl e | Inr metas0 \<Rightarrow> py_get metas0 i)
            else Inr (Some [])) of Inl e \<Rightarrow> Inl e | Inr the_meta \<Rightarrow>
      case py_get (res_distances results) 0 of Inl e \<Rightarrow> Inl e | Inr dists0 \<Rightarrow>
      case py_get dists0 i of Inl e \<Rightarrow> Inl e | Inr the_dist \<Rightarrow>
      Inr \<lparr>doc_id = the_id, document = the_doc, metadata = the_meta, distance = the_dist\<rparr>)"

fun retrieve_loop ::
  "('v, 'd) query_result \<Rightarrow> nat list \<Rightarrow> py_error + ('v, 'd) retrieved_doc list" where
  "retrieve_loop results [] = Inr []"
| "retrieve_loop results (i # rest) =
     (case retrieved_at results i of
        Inl e \<Rightarrow> Inl e
      | Inr d \<Rightarrow>
          (case retrieve_loop results rest of
             Inl e \<Rightarrow> Inl e
           | Inr ds \<Rightarrow> Inr (d # ds)))"

record ('e, 'v) stored =
  st_id :: string
  st_embedding :: 'e
  st_document :: string
  st_metadata :: "(string \<times> 'v) list option"

definition nearest ::
  "('e \<Rightarrow> 'e \<Rightarrow> 'd::linorder) \<Rightarrow> ('e, 'v) stored list \<Rightarrow> nat \<Rightarrow> 'e \<Rightarrow> ('e, 'v) stored list" where
  \<comment> \<open>the \<open>k\<close> entries nearest to the vector \<open>q\<close>, nearest first\<close>
  "nearest dist entries k q = take k (sort_key (\<lambda>e. dist q (st_embedding e)) entries)"

definition collection_query ::
  "('e \<Rightarrow> 'e \<Rightarrow> 'd::linorder) \<Rightarrow> ('e, 'v) stored list \<Rightarrow> 'e list \<Rightarrow> int
   \<Rightarrow> py_error + ('v, 'd) query_result" where
  \<comment> \<open>Modelled from the spec: \<open>collection.query\<close> of the vector store client, which is
      not part of the repository. For each query vector it answers with up to
      \<open>n_results\<close> matches, ranked by ascending distance, as one row of ids, documents,
      metadata and distances (sections 4.3 and 6 of the specification; \<open>dist\<close> is the
      store's distance, \<open>entries\<close> the content of the collection). Matches at equal
      distance keep the order of the collection, one of the orders the specification
      leaves open. The client refuses a request for fewer than one result.\<close>
  "collection_query dist entries query_embeddings n_results =
     (if n_results \<le> 0
      then Inl (ExternalError ''number of requested results must be positive'')
      else Inr \<lparr>res_ids =
                  map (\<lambda>q. map st_id (nearest dist entries (nat n_results) q)) query_embeddings,
                res_documents =
                  map (\<lambda>q. map st_document (nearest dist entries (nat n_results) q))
                      query_embeddings,
                res_metadatas =
                  Some (map (\<lambda>q. map st_metadata (nearest dist entries (nat n_results) q))
                            query_embeddings),
                res_distances =
                  map (\<lambda>q. map (\<lambda>e. dist q (st_embedding e))
                                (nearest dist entries (nat n_results) q))
                      query_embeddings\<rparr>)"

definition create_collection ::
  "(string \<rightharpoonup> ('e, 'v) stored list) \<Rightarrow> string \<Rightarrow> ('e, 'v) stored list" where
  \<comment> \<open>\<open>ChromaDBManager.create_collection\<close>: the collection of that name, or a new and
      empty one. \<open>client\<close> maps the names of the existing collections to their content.\<close>
  "create_collection client collection_name =
     (case client collection_name of
        Some collection \<Rightarrow> collection
      | None \<Rightarrow> [])"

definition query_collection ::
  "(string \<Rightarrow> py_error + 'e) \<Rightarrow> ('e \<Rightarrow> 'e \<Rightarrow> 'd::linorder) \<Rightarrow> (string \<rightharpoonup> ('e, 'v) stored list)
   \<Rightarrow> string \<Rightarrow> string \<Rightarrow> int \<Rightarrow> py_error + ('v, 'd) query_result" where
  \<comment> \<open>\<open>ChromaDBManager.query_collection\<close>; \<open>embed_content\<close> is the external embedding
      call\<close>
  "query_collection embed_content dist client collection_name query_text n_results =
     (let collection = create_collection client collection_name
      in case get_embeddings embed_content [query_text] of
           Inl e \<Rightarrow> Inl e
         | Inr embeddings \<Rightarrow>
             (case py_get embeddings 0 of
                Inl e \<Rightarrow> Inl e
              | Inr query_embedding \<Rightarrow>
                  collection_query dist collection [query_embedding] n_results))"

definition retrieve ::
  "(string \<Rightarrow> py_error + 'e) \<Rightarrow> ('e \<Rightarrow> 'e \<Rightarrow> 'd::linorder) \<Rightarrow> (string \<rightharpoonup> ('e, 'v) stored list)
   \<Rightarrow> string \<Rightarrow> string \<Rightarrow> int \<Rightarrow> py_error + ('v, 'd) retrieved_doc list" where
  \<comment> \<open>\<open>RAGChain.retrieve\<close> of a chain over the collection \<open>collection_name\<close>\<close>
  "retrieve embed_content dist client collection_name query n_results =
     (case query_collection embed_content dist client collection_name query n_results of
        Inl e \<Rightarrow> Inl e
      | Inr results \<Rightarrow>
          (case py_get (res_ids results) 0 of
             Inl e \<Rightarrow> Inl e
           | Inr ids0 \<Rightarrow> retrieve_loop results [0..<length ids0]))"

definition demo_client :: "string \<rightharpoonup> (int, string) stored list" where
  \<comment> \<open>a store with one collection of three chunks, to run \<open>retrieve\<close> on\<close>
  "demo_client =
     [''default_collection'' \<mapsto>
        [\<lparr>st_id = ''doc_0'', st_embedding = 40, st_document = ''cell walls'',
          st_metadata = Some [(''source'', ''biology.pdf'')]\<rparr>,
         \<lparr>st_id = ''doc_1'', st_embedding = 12, st_document = ''light reactions'',
          st_metadata = Some [(''source'', ''biology.pdf'')]\<rparr>,
         \<lparr>st_id = ''doc_2'', st_embedding = 90, st_document = ''tax law'',
          st_metadata = None\<rparr>]]"

definition demo_embed :: "string \<Rightarrow> py_error + int" where
  "demo_embed text = Inr (int (length text))"

definition demo_dist :: "int \<Rightarrow> int \<Rightarrow> int" where
  "demo_dist a b = \<bar>a - b\<bar>"

section \<open>More of Python's \<open>str\<close>\<close>

definition occurrences :: "string \<Rightarrow> string \<Rightarrow> nat list" where
  \<comment> \<open>the indices at which \<open>sub\<close> occurs in \<open>s\<close>, ascending\<close>
  "occurrences sub s = filter (\<lambda>i. prefix sub (drop i s)) [0..<Suc (length s)]"

definition py_in :: "string \<Rightarrow> string \<Rightarrow> bool" where
  \<comment> \<open>\<open>sub in s\<close>\<close>
  "py_in sub s = (occurrences sub s \<noteq> [])"

definition py_find :: "string \<Rightarrow> string \<Rightarrow> int" where
  \<comment> \<open>\<open>s.find(sub)\<close>\<close>
  "py_find sub s = (case occurrences sub s of [] \<Rightarrow> -1 | i # _ \<Rightarrow> int i)"

definition py_rfind :: "string \<Rightarrow> string \<Rightarrow> int" where
  \<comment> \<open>\<open>s.rfind(sub)\<close>\<close>
  "py_rfind sub s = (case rev (occurrences sub s) of [] \<Rightarrow> -1 | i # _ \<Rightarrow> int i)"

function py_split_from :: "string \<Rightarrow> nat option \<Rightarrow> string \<Rightarrow> string \<Rightarrow> string list" where
  \<comment> \<open>\<open>s.split(sep, maxsplit)\<close> for a separator that is not empty, scanning from the
      left; \<open>cur\<close> is the piece being read and \<open>limit\<close> the number of splits left
      (\<open>None\<close>: no limit).\<close>
  "py_split_from sep limit cur [] = [cur]"
| "py_split_from sep limit cur (c # cs) =
     (if sep \<noteq> [] \<and> limit \<noteq> Some 0 \<and> prefix sep (c # cs)
      then cur # py_split_from sep (map_option (\<lambda>n. n - 1) limit) [] (drop (length sep) (c # cs))
      else py_split_from sep limit (cur @ [c]) cs)"
  by pat_completeness auto
termination
  by (relation "measure (\<lambda>(sep, limit, cur, s). length s)") auto

definition py_split :: "string \<Rightarrow> string \<Rightarrow> string list" where
  \<comment> \<open>\<open>s.split(sep)\<close>\<close>
  "py_split sep s = py_split_from sep None [] s"

definition py_split_max :: "string \<Rightarrow> nat \<Rightarrow> string \<Rightarrow> string list" where
  \<comment> \<open>\<open>s.split(sep, maxsplit)\<close>\<close>
  "py_split_max sep maxsplit s = py_split_from sep (Some maxsplit) [] s"

definition lower_char :: "char \<Rightarrow> char" where
  "lower_char c =
     (let n = (of_char c :: nat)
      in if (65 \<le> n \<and> n \<le> 90) \<or> (192 \<le> n \<and> n \<le> 222 \<and> n \<noteq> 215)
         then char_of (n + 32) else c)"

definition py_lower :: "string \<Rightarrow> string" where
  \<comment> \<open>\<open>s.lower()\<close>\<close>
  "py_lower s = map lower_char s"

fun str_less :: "string \<Rightarrow> string \<Rightarrow> bool" where
  \<comment> \<open>\<open>a < b\<close> on strings: lexicographic, by code point\<close>
  "str_less [] [] = False"
| "str_less [] (y # ys) = True"
| "str_less (x # xs) [] = False"
| "str_less (x # xs) (y # ys) =
     ((of_char x :: nat) < of_char y \<or> (x = y \<and> str_less xs ys))"

definition newline :: char where
  "newline = CHR 0x0A"

section \<open>Parsing the model's answer\<close>

datatype pyval =
    PNone
  | PBool bool
  | PInt int
  | PFloat int int  \<comment> \<open>a float, as the decimal \<open>m * 10 ^ e\<close> it was read from\<close>
  | PStr string
  | PList "pyval list"
  | PDict "(string \<times> pyval) list"  \<comment> \<open>a dictionary, in insertion order\<close>

text \<open>
  \<open>json.loads\<close> belongs to Python's library. The parsers take it as the parameter
  \<open>json_loads\<close>: \<open>Some v\<close> for the decoded value, \<open>None\<close> where it raises.
  The answer of the model, \<open>response\<close>, is the input: the functions below are the part
  of \<open>generate_mcqs\<close> and \<open>generate_flashcards\<close> that follows \<open>generate_text\<close>.
\<close>

subsection \<open>MCQGenerator.generate\_mcqs\<close>

definition option_markers :: "string list" where
  "option_markers = [''A.'', ''B.'', ''C.'', ''D.'']"

definition parse_option :: "string \<Rightarrow> string \<Rightarrow> string list" where
  \<comment> \<open>the body of the loop over the option markers: what it appends to \<open>options\<close>\<close>
  "parse_option options_text opt =
     (if py_in opt options_text then
        (let opt_start = py_find opt options_text;
             next_opt = find (\<lambda>other. str_less opt other \<and> py_in other options_text) option_markers;
             opt_end = (case next_opt of
                          Some other \<Rightarrow> py_find other options_text
                        | None \<Rightarrow> int (length options_text))
         in [strip (py_slice options_text opt_start opt_end)])
      else [])"

definition correct_answer :: "string \<Rightarrow> string" where
  "correct_answer q =
     (if py_in ''correct'' (py_lower q) then
        (case find (\<lambda>opt. py_in (''correct answer is '' @ opt) (py_lower q)
                        \<or> py_in (''correct: '' @ opt) (py_lower q))
                   [''A'', ''B'', ''C'', ''D''] of
           Some opt \<Rightarrow> opt
         | None \<Rightarrow> ''A'')
      else ''A'')"

definition parse_question :: "string \<Rightarrow> py_error + pyval list" where
  \<comment> \<open>the body of the loop over the blocks: what it appends to \<open>mcqs\<close>\<close>
  "parse_question q =
     (if py_in ''?'' q \<and> py_in ''A.'' q \<and> py_in ''B.'' q then
        (let question_parts = py_split ''?'' q
         in case py_get question_parts 0 of Inl e \<Rightarrow> Inl e | Inr part0 \<Rightarrow>
            case py_get question_parts 1 of Inl e \<Rightarrow> Inl e | Inr options_text \<Rightarrow>
              (let question = part0 @ ''?'';
                   options = concat (map (parse_option options_text) option_markers)
               in Inr [PDict [(''question'', PStr (strip question)),
                              (''options'', PList (map PStr options)),
                              (''correct_answer'', PStr (correct_answer q)),
                              (''explanation'',
                               PStr ''Explanation not available in parsed format'')]]))
      else Inr [])"

fun collect :: "(string \<Rightarrow> py_error + pyval list) \<Rightarrow> string list \<Rightarrow> py_error + pyval list" where
  \<comment> \<open>a \<open>for\<close> loop appending to a list; the first exception ends it\<close>
  "collect body [] = Inr []"
| "collect body (q # qs) =
     (case body q of
        Inl e \<Rightarrow> Inl e
      | Inr found \<Rightarrow>
          (case collect body qs of
             Inl e \<Rightarrow> Inl e
           | Inr rest \<Rightarrow> Inr (found @ rest)))"

definition mcq_placeholder :: pyval where
  "mcq_placeholder =
     PList [PDict [(''question'', PStr ''Failed to parse questions properly. Please try again.''),
                   (''options'', PList [PStr ''A. Try again'', PStr ''B. Use different content'',
                                        PStr ''C. Adjust parameters'', PStr ''D. Contact support'']),
                   (''correct_answer'', PStr ''A''),
                   (''explanation'', PStr ''There was an error processing the AI response.'')]]"

definition generate_mcqs :: "(string \<Rightarrow> pyval option) \<Rightarrow> string \<Rightarrow> int \<Rightarrow> pyval" where
  \<comment> \<open>every exception raised inside the \<open>try\<close> block ends in the placeholder\<close>
  "generate_mcqs json_loads response num_questions =
     (let start_idx = py_find ''[{'' response;
          end_idx = py_rfind ''}]'' response + 2
      in if start_idx \<ge> 0 \<and> end_idx > start_idx then
           (let json_str = py_slice response start_idx end_idx
            in case json_loads json_str of
                 None \<Rightarrow> mcq_placeholder
               | Some mcqs \<Rightarrow> mcqs)
         else
           (let questions = py_split [newline, newline] response
            in case collect parse_question (py_slice questions 0 num_questions) of
                 Inl e \<Rightarrow> mcq_placeholder
               | Inr mcqs \<Rightarrow> PList mcqs))"

subsection \<open>RevisionHelper.generate\_flashcards\<close>

fun read_lines :: "string \<Rightarrow> string \<Rightarrow> string list \<Rightarrow> py_error + string \<times> string" where
  \<comment> \<open>the loop over the lines of a card, from the current \<open>front\<close> and \<open>back\<close>\<close>
  "read_lines front back [] = Inr (front, back)"
| "read_lines front back (line # lines) =
     (if py_in ''front:'' (py_lower line) then
        (case py_get (py_split_max '':'' 1 line) 1 of
           Inl e \<Rightarrow> Inl e
         | Inr rest \<Rightarrow> read_lines (strip rest) back lines)
      else if py_in ''back:'' (py_lower line) then
        (case py_get (py_split_max '':'' 1 line) 1 of
           Inl e \<Rightarrow> Inl e
         | Inr rest \<Rightarrow> read_lines front (strip rest) lines)
      else read_lines front back lines)"

definition parse_card :: "string \<Rightarrow> py_error + pyval list" where
  \<comment> \<open>the body of the loop over the cards: what it appends to \<open>flashcards\<close>\<close>
  "parse_card the_card =
     (if py_in ''front'' (py_lower the_card) \<and> py_in ''back'' (py_lower the_card) then
        (case read_lines [] [] (py_split [newline] the_card) of
           Inl e \<Rightarrow> Inl e
         | Inr (front, back) \<Rightarrow>
             if front \<noteq> [] \<and> back \<noteq> []
             then Inr [PDict [(''front'', PStr front), (''back'', PStr back)]]
             else Inr [])
      else Inr [])"

definition flashcard_placeholder :: pyval where
  "flashcard_placeholder =
     PList [PDict [(''front'', PStr ''Failed to parse flashcards properly. Please try again.''),
                   (''back'', PStr ''There was an error processing the AI response.'')]]"

definition generate_flashcards :: "(string \<Rightarrow> pyval option) \<Rightarrow> string \<Rightarrow> int \<Rightarrow> pyval" where
  "generate_flashcards json_loads response num_cards =
     (let start_idx = py_find ''[{'' response;
          end_idx = py_rfind ''}]'' response + 2
      in if start_idx \<ge> 0 \<and> end_idx > start_idx then
           (let json_str = py_slice response start_idx end_idx
            in case json_loads json_str of
                 None \<Rightarrow> flashcard_placeholder
               | Some flashcards \<Rightarrow> flashcards)
         else
           (let cards = py_split [newline, newline] response
            in case collect parse_card (py_slice cards 0 num_cards) of
                 Inl e \<Rightarrow> flashcard_placeholder
               | Inr flashcards \<Rightarrow> PList flashcards))"

section \<open>Notions used in the statements\<close>

subsection \<open>Properties of a chunk\<close>

definition no_outer_space :: "string \<Rightarrow> bool" where
  \<comment> \<open>No leading and no trailing whitespace.\<close>
  "no_outer_space s = (s = [] \<or> (\<not> is_space (hd s) \<and> \<not> is_space (last s)))"

definition good_chunk :: "int \<Rightarrow> string \<Rightarrow> bool" where
  "good_chunk chunk_size c = (int (length c) \<le> chunk_size \<and> no_outer_space c)"

subsection \<open>Whitespace normalisation, as the specification words it\<close>

text \<open>
  The words of a text are its maximal runs of characters that are not whitespace.
  Collapsing every run of whitespace to one space and trimming both ends leaves the
  words joined by single spaces.
\<close>

function ws_words :: "string \<Rightarrow> string list" where
  "ws_words s =
     (case dropWhile is_space s of
        [] \<Rightarrow> []
      | c # cs \<Rightarrow> (c # takeWhile (\<lambda>x. \<not> is_space x) cs)
                  # ws_words (dropWhile (\<lambda>x. \<not> is_space x) cs))"
  by pat_completeness auto
termination
proof (relation "measure length", goal_cases)
  case 1
  show ?case by simp
next
  case (2 s c cs)
  have "length (dropWhile (\<lambda>x. \<not> is_space x) cs) \<le> length cs"
    by (rule length_dropWhile_le)
  also have "length cs < length (dropWhile is_space s)" using 2 by simp
  also have "\<dots> \<le> length s" by (rule length_dropWhile_le)
  finally show ?case by simp
qed

declare ws_words.simps [simp del]

fun join_space :: "string list \<Rightarrow> string" where
  "join_space [] = []"
| "join_space [w] = w"
| "join_space (w # ws) = w @ CHR '' '' # join_space ws"

definition rstrip :: "string \<Rightarrow> string" where
  \<comment> \<open>the right half of \<open>strip\<close>\<close>
  "rstrip s = rev (dropWhile is_space (rev s))"

subsection \<open>Decimal numerals\<close>

definition is_digit :: "char \<Rightarrow> bool" where
  \<comment> \<open>one of the characters 0 to 9\<close>
  "is_digit c = (48 \<le> (of_char c :: nat) \<and> (of_char c :: nat) \<le> 57)"

definition digits_value :: "string \<Rightarrow> nat" where
  \<comment> \<open>the number a string of digits denotes in base ten\<close>
  "digits_value ds = foldl (\<lambda>a c. 10 * a + (of_char c - 48)) 0 ds"

definition decimal_numeral :: "string \<Rightarrow> nat \<Rightarrow> bool" where
  \<comment> \<open>\<open>ds\<close> is the decimal numeral of \<open>n\<close>: digits only, no leading zero but for
      \<open>0\<close> itself, denoting \<open>n\<close>\<close>
  "decimal_numeral ds n =
     (ds \<noteq> [] \<and> list_all is_digit ds \<and> (hd ds = CHR ''0'' \<longrightarrow> ds = ''0'')
      \<and> digits_value ds = n)"

definition twelve_pages :: "string list" where
  "twelve_pages = [''p0'', ''p1'', ''p2'', ''p3'', ''p4'', ''p5'', ''p6'', ''p7'', ''p8'', ''p9'',
                   ''p10'', ''p11'']"

subsection \<open>Shapes of an answer\<close>

definition bracketed :: "string \<Rightarrow> bool" where
  \<comment> \<open>the text holds \<open>[{\<close> and, further to the right, \<open>}]\<close>\<close>
  "bracketed s =
     list_ex (\<lambda>i. list_ex (\<lambda>j. i < j) (occurrences ''}]'' s)) (occurrences ''[{'' s)"

definition json_loads_example :: "string \<Rightarrow> pyval option" where
  \<comment> \<open>\<open>json.loads\<close> on the documents decoded in the examples: \<open>[{}]\<close> is a list
      of one empty object, and \<open>[\<close> is not a JSON document; no other document is
      decoded there\<close>
  "json_loads_example s = (if s = ''[{}]'' then Some (PList [PDict []]) else None)"


subsection \<open>The windows of the chunking loop\<close>

text \<open>
  \<open>loop_starts\<close> lists the values of \<open>start\<close> at the iterations of the loop, in
  order, so that chunk \<open>i\<close> of the result is cut at the \<open>i\<close>-th of them.
  \<open>end_adjusted\<close> says that the iteration at \<open>start\<close> moved \<open>end\<close> to a sentence
  terminator or to a space: one of the two assignments to \<open>end\<close> inside the branch
  \<open>end < len(text)\<close> was executed.
\<close>

primrec loop_starts :: "nat \<Rightarrow> string \<Rightarrow> int \<Rightarrow> int \<Rightarrow> int \<Rightarrow> int list" where
  "loop_starts 0 text chunk_size overlap start = []"
| "loop_starts (Suc fuel) text chunk_size overlap start =
     (if start < int (length text)
      then start # loop_starts fuel text chunk_size overlap (next_start text chunk_size overlap start)
      else [])"

definition end_adjusted :: "string \<Rightarrow> int \<Rightarrow> int \<Rightarrow> bool" where
  "end_adjusted text chunk_size start =
     (let end = start + chunk_size
      in end < int (length text) \<and>
         (let last_period = max (max (rfind_char CHR ''.'' text start end)
                                     (rfind_char CHR ''?'' text start end))
                                (rfind_char CHR ''!'' text start end)
          in (last_period \<noteq> -1 \<and> last_period > start + chunk_size div 2)
             \<or> rfind_char CHR '' '' text start end \<noteq> -1))"

section \<open>Theorems\<close>

subsection \<open>The chunking loop can fail to return\<close>

lemma stuck_next_start: "next_start ''a bbbbbb'' 3 1 1 = 1"
  by code_simp

lemma stuck_first_start: "next_start ''a bbbbbb'' 3 1 0 = 1"
  by code_simp

lemma stuck_clean_text: "clean_text ''a bbbbbb'' = ''a bbbbbb''"
  by code_simp

lemma stuck_loop: "chunk_loop fuel ''a bbbbbb'' 3 1 1 chunks = None"
  by (induction fuel arbitrary: chunks) (simp_all add: stuck_next_start)

text \<open>
  C2. The claim is that \<open>chunk_text\<close> returns whenever \<open>chunk_size > 0\<close> and
  \<open>0 \<le> overlap < chunk_size\<close>. On the text \<open>a bbbbbb\<close> with \<open>chunk_size = 3\<close> and
  \<open>overlap = 1\<close> it does not: the second window starts at index 1, its only space is at
  index 1, so \<open>end\<close> becomes 2 and the next \<open>start\<close> is 1 again. No amount of fuel
  lets the loop finish.
\<close>

theorem chunk_text_stuck: "chunk_text fuel ''a bbbbbb'' 3 1 = None"
proof (cases fuel)
  case 0
  then show ?thesis by (simp add: chunk_text_def stuck_clean_text)
next
  case (Suc k)
  then show ?thesis
    by (simp add: chunk_text_def stuck_clean_text stuck_first_start stuck_loop)
qed

subsection \<open>Every chunk fits the window and is stripped\<close>

lemma length_strip_le: "length (strip s) \<le> length s"
  unfolding strip_def
  by (metis length_rev length_dropWhile_le le_trans)

lemma dropWhile_hd: "dropWhile P xs \<noteq> [] \<Longrightarrow> \<not> P (hd (dropWhile P xs))"
  by (metis hd_dropWhile)

lemma strip_no_outer_space: "no_outer_space (strip s)"
proof (cases "strip s = []")
  case True
  then show ?thesis by (simp add: no_outer_space_def)
next
  case False
  let ?d = "dropWhile is_space s"
  let ?r = "dropWhile is_space (rev ?d)"
  from False have r: "?r \<noteq> []" unfolding strip_def by (simp only: rev_is_Nil_conv not_False_eq_True)
  then have l: "\<not> is_space (hd ?r)" by (rule dropWhile_hd)
  have last_eq: "last (strip s) = hd ?r"
    using r by (simp add: strip_def last_rev)
  obtain ys where ys: "rev ?d = ys @ ?r" 
    by (metis takeWhile_dropWhile_id)
  have "?d \<noteq> []"
  proof
    assume "?d = []"
    then have "?r = []" by (simp only: rev.simps dropWhile.simps)
    with r show False by simp
  qed
  then have hd_d: "\<not> is_space (hd ?d)" by (rule dropWhile_hd)
  from ys have "?d = rev ?r @ rev ys" by (metis rev_append rev_rev_ident)
  then have "hd ?d = hd (rev ?r)" using r by (metis hd_append2 rev_is_Nil_conv)
  then have "\<not> is_space (hd (strip s))" using hd_d by (simp add: strip_def)
  with l last_eq show ?thesis by (simp add: no_outer_space_def)
qed

lemma length_py_slice:
  "0 \<le> a \<Longrightarrow> 0 \<le> b \<Longrightarrow> int (length (py_slice s a b)) \<le> max 0 (b - a)"
  by (auto simp: py_slice_def adjust_index_def Let_def min_def max_def)

lemma rfind_char_cases:
  "rfind_char c s a b = -1 \<or>
   (adjust_index (int (length s)) a \<le> rfind_char c s a b \<and>
    rfind_char c s a b < adjust_index (int (length s)) b \<and>
    rfind_char c s a b < int (length s) \<and>
    s ! nat (rfind_char c s a b) = c)"
proof -
  let ?n = "int (length s)"
  let ?P = "\<lambda>i. adjust_index ?n a \<le> int i \<and> int i < adjust_index ?n b \<and> s ! i = c"
  let ?f = "filter ?P (rev [0..<length s])"
  show ?thesis
  proof (cases ?f)
    case Nil
    then show ?thesis by (simp add: rfind_char_def Let_def)
  next
    case (Cons i rest)
    then have "i \<in> set ?f" by simp
    then have "?P i" and "i < length s" by auto
    moreover have "rfind_char c s a b = int i"
      using Cons by (simp add: rfind_char_def Let_def)
    ultimately show ?thesis by simp
  qed
qed

lemma rfind_char_upper:
  "0 \<le> b \<Longrightarrow> rfind_char c s a b < b"
  using rfind_char_cases [of c s a b]
  by (auto simp: adjust_index_def split: if_splits)

lemma rfind_char_lower: "- 1 \<le> rfind_char c s a b"
  using rfind_char_cases [of c s a b]
  by (auto simp: adjust_index_def split: if_splits)

lemma window_end_upper:
  "0 \<le> start \<Longrightarrow> 0 \<le> chunk_size \<Longrightarrow> window_end text chunk_size start \<le> start + chunk_size"
  using rfind_char_upper [of "start + chunk_size" "CHR ''.''" "text" start]
        rfind_char_upper [of "start + chunk_size" "CHR ''?''" "text" start]
        rfind_char_upper [of "start + chunk_size" "CHR ''!''" "text" start]
        rfind_char_upper [of "start + chunk_size" "CHR '' ''" "text" start]
  by (auto simp: window_end_def Let_def max_def)

lemma window_end_lower:
  "0 \<le> start \<Longrightarrow> 0 \<le> chunk_size \<Longrightarrow> 0 \<le> window_end text chunk_size start"
  using rfind_char_lower [of "CHR ''.''" "text" start "start + chunk_size"]
        rfind_char_lower [of "CHR ''?''" "text" start "start + chunk_size"]
        rfind_char_lower [of "CHR ''!''" "text" start "start + chunk_size"]
        rfind_char_lower [of "CHR '' ''" "text" start "start + chunk_size"]
  by (auto simp: window_end_def Let_def max_def)

lemma length_chunk_at:
  assumes "0 \<le> start" "0 \<le> chunk_size"
  shows "int (length (chunk_at text chunk_size start)) \<le> chunk_size"
proof -
  let ?e = "window_end text chunk_size start"
  have "int (length (chunk_at text chunk_size start)) \<le> int (length (py_slice text start ?e))"
    by (simp add: chunk_at_def length_strip_le)
  also have "\<dots> \<le> max 0 (?e - start)"
    using assms by (intro length_py_slice window_end_lower) auto
  also have "\<dots> \<le> chunk_size"
    using assms window_end_upper [of start chunk_size "text"] by simp
  finally show ?thesis .
qed

lemma next_start_nonneg: "0 \<le> next_start text chunk_size overlap start"
  by (simp add: next_start_def Let_def)

lemma chunk_loop_good:
  assumes "0 \<le> chunk_size"
  shows "chunk_loop fuel text chunk_size overlap start acc = Some chunks \<Longrightarrow> 0 \<le> start \<Longrightarrow>
         \<forall>c \<in> set acc. good_chunk chunk_size c \<Longrightarrow> \<forall>c \<in> set chunks. good_chunk chunk_size c"
proof (induction fuel arbitrary: start acc)
  case 0
  then show ?case by (auto split: if_splits)
next
  case (Suc fuel)
  show ?case
  proof (cases "start < int (length text)")
    case True
    have g: "good_chunk chunk_size (chunk_at text chunk_size start)"
      using length_chunk_at [OF Suc.prems(2) assms]
      by (simp add: good_chunk_def) (simp add: chunk_at_def strip_no_outer_space)
    from True Suc.prems(1)
    have "chunk_loop fuel text chunk_size overlap (next_start text chunk_size overlap start)
            (acc @ [chunk_at text chunk_size start]) = Some chunks"
      by simp
    then show ?thesis
    proof (rule Suc.IH)
      show "0 \<le> next_start text chunk_size overlap start" by (rule next_start_nonneg)
      show "\<forall>c \<in> set (acc @ [chunk_at text chunk_size start]). good_chunk chunk_size c"
        using Suc.prems(3) g by simp
    qed
  next
    case False
    with Suc.prems show ?thesis by simp
  qed
qed

lemma clean_text_no_outer_space: "no_outer_space (clean_text text)"
  by (simp add: clean_text_def strip_no_outer_space)

lemma chunk_text_good:
  assumes "0 \<le> chunk_size" and "chunk_text fuel text chunk_size overlap = Some chunks"
  shows "\<forall>c \<in> set chunks. good_chunk chunk_size c"
proof (cases "int (length (clean_text text)) \<le> chunk_size")
  case True
  with assms(2) have "chunks = [clean_text text]"
    by (simp add: chunk_text_def Let_def)
  with True show ?thesis
    by (simp add: good_chunk_def clean_text_no_outer_space)
next
  case False
  with assms(2) have "chunk_loop fuel (clean_text text) chunk_size overlap 0 [] = Some chunks"
    by (simp add: chunk_text_def Let_def)
  from chunk_loop_good [OF assms(1) this] show ?thesis by simp
qed


text \<open>
  C4. The claim is stated for every \<open>chunk_size\<close>. A negative \<open>chunk_size\<close> is not
  rejected, and then no chunk can be that short: with \<open>chunk_size = -1\<close> and
  \<open>overlap = -3\<close> the text \<open>abcdef\<close> gives three chunks, the first of length 5.
\<close>

theorem nonfinal_chunk_length_counterexample:
  "chunk_text 10 ''abcdef'' (- 1) (- 3) = Some [''abcde'', [], []]
   \<and> ''abcde'' \<in> set (butlast [''abcde'', [], []])
   \<and> \<not> int (length ''abcde'') \<le> - 1"
  by code_simp

text \<open>
  C4, amended. For a \<open>chunk_size\<close> that is not negative, every non-final chunk of a
  returned list has at most \<open>chunk_size\<close> characters.
\<close>

theorem nonfinal_chunk_length:
  assumes "0 \<le> chunk_size"
    and "chunk_text fuel text chunk_size overlap = Some chunks"
    and "c \<in> set (butlast chunks)"
  shows "int (length c) \<le> chunk_size"
proof -
  from assms(3) have "c \<in> set chunks" by (rule in_set_butlastD)
  with chunk_text_good [OF assms(1,2)] show ?thesis
    by (simp add: good_chunk_def)
qed

theorem nonfinal_chunk_length_witness:
  "(0::int) \<le> 5
   \<and> chunk_text 10 ''abcdefgh'' 5 3 = Some [''abcde'', ''cdefg'', ''efgh'', ''gh'']
   \<and> ''cdefg'' \<in> set (butlast [''abcde'', ''cdefg'', ''efgh'', ''gh''])
   \<and> int (length ''cdefg'') \<le> 5"
proof -
  have run: "chunk_text 10 ''abcdefgh'' 5 3 = Some [''abcde'', ''cdefg'', ''efgh'', ''gh'']"
    by code_simp
  have pos: "(0::int) \<le> 5" by simp
  have mem: "''cdefg'' \<in> set (butlast [''abcde'', ''cdefg'', ''efgh'', ''gh''])" by simp
  from nonfinal_chunk_length [OF pos run mem] pos run mem show ?thesis by simp
qed

text \<open>
  C10. The claim bounds every chunk, the final one too, by \<open>chunk_size\<close> and says each
  is stripped. With a negative \<open>chunk_size\<close> the bound fails: \<open>chunk_size = -2\<close> and
  \<open>overlap = -20\<close> on \<open>hello world\<close> return the one chunk \<open>hello\<close>. The stripping
  is not affected.
\<close>

theorem every_chunk_bounded_counterexample:
  "chunk_text 10 ''hello world'' (- 2) (- 20) = Some [''hello'']
   \<and> \<not> int (length ''hello'') \<le> - 2"
  by code_simp

lemma chunk_loop_stripped:
  "chunk_loop fuel text chunk_size overlap start acc = Some chunks \<Longrightarrow>
   \<forall>c \<in> set acc. no_outer_space c \<Longrightarrow> \<forall>c \<in> set chunks. no_outer_space c"
proof (induction fuel arbitrary: start acc)
  case 0
  then show ?case by (auto split: if_splits)
next
  case (Suc fuel)
  show ?case
  proof (cases "start < int (length text)")
    case True
    with Suc.prems(1)
    have "chunk_loop fuel text chunk_size overlap (next_start text chunk_size overlap start)
            (acc @ [chunk_at text chunk_size start]) = Some chunks"
      by simp
    then show ?thesis
    proof (rule Suc.IH)
      show "\<forall>c \<in> set (acc @ [chunk_at text chunk_size start]). no_outer_space c"
        using Suc.prems(2) by (simp add: chunk_at_def strip_no_outer_space)
    qed
  next
    case False
    with Suc.prems show ?thesis by simp
  qed
qed

lemma chunk_text_stripped:
  assumes "chunk_text fuel text chunk_size overlap = Some chunks"
  shows "\<forall>c \<in> set chunks. no_outer_space c"
proof (cases "int (length (clean_text text)) \<le> chunk_size")
  case True
  with assms have "chunks = [clean_text text]"
    by (simp add: chunk_text_def Let_def)
  then show ?thesis by (simp add: clean_text_no_outer_space)
next
  case False
  with assms have "chunk_loop fuel (clean_text text) chunk_size overlap 0 [] = Some chunks"
    by (simp add: chunk_text_def Let_def)
  from chunk_loop_stripped [OF this] show ?thesis by simp
qed

text \<open>
  C10, amended. Every chunk of a returned list neither starts nor ends with whitespace,
  whatever the \<open>chunk_size\<close>; and when \<open>chunk_size\<close> is not negative, every chunk, the
  final one included, has at most \<open>chunk_size\<close> characters.
\<close>

theorem every_chunk_bounded_stripped:
  assumes "chunk_text fuel text chunk_size overlap = Some chunks"
    and "c \<in> set chunks"
  shows "no_outer_space c \<and> (0 \<le> chunk_size \<longrightarrow> int (length c) \<le> chunk_size)"
proof
  show "no_outer_space c" using chunk_text_stripped [OF assms(1)] assms(2) by blast
  show "0 \<le> chunk_size \<longrightarrow> int (length c) \<le> chunk_size"
  proof
    assume "0 \<le> chunk_size"
    from chunk_text_good [OF this assms(1)] assms(2) show "int (length c) \<le> chunk_size"
      by (simp add: good_chunk_def)
  qed
qed

theorem every_chunk_bounded_stripped_witness:
  "chunk_text 10 ''  Hello   world. This is.  A test     of chunks '' 12 3
       = Some [''Hello world.'', ''ld. This is.'', ''is. A test'', ''st of chunks'', ''nks'']
   \<and> ''nks'' \<in> set [''Hello world.'', ''ld. This is.'', ''is. A test'', ''st of chunks'', ''nks'']
   \<and> (0::int) \<le> 12
   \<and> no_outer_space ''nks'' \<and> int (length ''nks'') \<le> 12"
proof -
  have run: "chunk_text 10 ''  Hello   world. This is.  A test     of chunks '' 12 3
       = Some [''Hello world.'', ''ld. This is.'', ''is. A test'', ''st of chunks'', ''nks'']"
    by code_simp
  have pos: "(0::int) \<le> 12" by simp
  have mem: "''nks'' \<in> set [''Hello world.'', ''ld. This is.'', ''is. A test'', ''st of chunks'', ''nks'']"
    by simp
  from every_chunk_bounded_stripped [OF run mem] pos run mem show ?thesis by simp
qed

subsection \<open>GeminiInterface: the credential check\<close>

text \<open>
  C9. Constructing the interface raises exactly when \<open>GEMINI_API_KEY\<close> is unset or
  empty, and it raises before any call to the \<open>genai\<close> library is made; with a
  non-empty credential the construction returns an interface.
\<close>

theorem gemini_init_fails_fast:
  "((\<exists>e. fst (gemini_init env) = Inl e)
      = (env ''GEMINI_API_KEY'' = None \<or> env ''GEMINI_API_KEY'' = Some []))
   \<and> ((\<exists>e. fst (gemini_init env) = Inl e) \<longrightarrow> snd (gemini_init env) = [])
   \<and> ((\<exists>g. fst (gemini_init env) = Inr g)
      = (\<exists>k. env ''GEMINI_API_KEY'' = Some k \<and> k \<noteq> []))"
  by (auto simp: gemini_init_def split: option.splits)

theorem gemini_init_fails_fast_witness:
  "(\<exists>e. fst (gemini_init Map.empty) = Inl e) \<and> snd (gemini_init Map.empty) = []
   \<and> (\<exists>e. fst (gemini_init [''GEMINI_API_KEY'' \<mapsto> '''']) = Inl e)
   \<and> (\<exists>g. fst (gemini_init [''GEMINI_API_KEY'' \<mapsto> ''k3y'']) = Inr g)"
  using gemini_init_fails_fast [of Map.empty]
        gemini_init_fails_fast [of "[''GEMINI_API_KEY'' \<mapsto> '''']"]
        gemini_init_fails_fast [of "[''GEMINI_API_KEY'' \<mapsto> ''k3y'']"]
  by simp

subsection \<open>ChromaDBManager.add\_documents: generated identifiers\<close>

lemma get_embeddings_length:
  "get_embeddings f texts = Inr es \<Longrightarrow> length es = length texts"
  by (induction texts arbitrary: es) (auto split: sum.splits)

lemma of_char_digit_char: "d < 10 \<Longrightarrow> (of_char (digit_char d) :: nat) = 48 + d"
  by (simp add: digit_char_def)

lemma digits_value_snoc:
  "digits_value (ds @ [c]) = 10 * digits_value ds + (of_char c - 48)"
  by (simp add: digits_value_def)

lemma str_nat_nonempty: "str_nat n \<noteq> []"
  by (subst str_nat.simps) simp

lemma str_nat_digits: "list_all is_digit (str_nat n)"
proof (induction n rule: str_nat.induct)
  case (1 n)
  show ?case
  proof (cases "n < 10")
    case True
    then show ?thesis
      by (subst str_nat.simps) (simp add: is_digit_def of_char_digit_char)
  next
    case False
    with 1 have "list_all is_digit (str_nat (n div 10))" by simp
    moreover have "is_digit (digit_char (n mod 10))"
      by (simp add: is_digit_def of_char_digit_char)
    ultimately show ?thesis using False by (subst str_nat.simps) simp
  qed
qed

lemma str_nat_value: "digits_value (str_nat n) = n"
proof (induction n rule: str_nat.induct)
  case (1 n)
  show ?case
  proof (cases "n < 10")
    case True
    then show ?thesis
      by (subst str_nat.simps) (simp add: digits_value_def of_char_digit_char)
  next
    case False
    with 1 have "digits_value (str_nat (n div 10)) = n div 10" by simp
    then show ?thesis using False
      by (subst str_nat.simps) (simp add: digits_value_snoc of_char_digit_char)
  qed
qed

lemma str_nat_leading: "0 < n \<Longrightarrow> hd (str_nat n) \<noteq> CHR ''0''"
proof (induction n rule: str_nat.induct)
  case (1 n)
  show ?case
  proof (cases "n < 10")
    case True
    have "(of_char (digit_char n) :: nat) \<noteq> of_char CHR ''0''"
      using True "1.prems" by (simp add: of_char_digit_char)
    then have "digit_char n \<noteq> CHR ''0''" by auto
    then show ?thesis using True by (subst str_nat.simps) simp
  next
    case False
    then have "0 < n div 10" by simp
    with 1 False have "hd (str_nat (n div 10)) \<noteq> CHR ''0''" by simp
    then show ?thesis using False str_nat_nonempty [of "n div 10"]
      by (subst str_nat.simps) simp
  qed
qed

lemma str_nat_zero: "str_nat 0 = ''0''"
  by code_simp

lemma str_nat_decimal: "decimal_numeral (str_nat n) n"
proof (cases "n = 0")
  case True
  then show ?thesis
    by (simp add: decimal_numeral_def str_nat_zero is_digit_def digits_value_def)
next
  case False
  then have "hd (str_nat n) \<noteq> CHR ''0''" using str_nat_leading by simp
  then show ?thesis
    by (simp add: decimal_numeral_def str_nat_nonempty str_nat_digits str_nat_value)
qed

text \<open>
  C8. Called with \<open>ids = None\<close> on \<open>n\<close> documents, \<open>add_documents\<close> hands the store
  \<open>n\<close> identifiers, the one at index \<open>i\<close> being \<open>doc_\<close> followed by the decimal
  numeral of \<open>i\<close>.
\<close>

theorem add_documents_default_ids:
  assumes "add_documents embed_content documents metadatas None = Inr args"
  shows "length (arg_ids args) = length documents
         \<and> (\<forall>i < length documents.
               arg_ids args ! i = ''doc_'' @ str_nat i \<and> decimal_numeral (str_nat i) i)"
  using assms by (auto simp: add_documents_def str_nat_decimal split: sum.splits)

theorem add_documents_default_ids_witness:
  "add_documents (\<lambda>t. Inr (length t)) twelve_pages (None :: unit list option) None
     = Inr \<lparr>arg_embeddings = [2, 2, 2, 2, 2, 2, 2, 2, 2, 2, 3, 3],
            arg_documents = twelve_pages, arg_metadatas = None,
            arg_ids = [''doc_0'', ''doc_1'', ''doc_2'', ''doc_3'', ''doc_4'', ''doc_5'', ''doc_6'',
                       ''doc_7'', ''doc_8'', ''doc_9'', ''doc_10'', ''doc_11'']\<rparr>
   \<and> str_nat 11 = ''11'' \<and> decimal_numeral ''11'' 11
   \<and> str_nat 0 = ''0'' \<and> decimal_numeral ''0'' 0"
proof -
  have run: "add_documents (\<lambda>t. Inr (length t)) twelve_pages (None :: unit list option) None
     = Inr \<lparr>arg_embeddings = [2, 2, 2, 2, 2, 2, 2, 2, 2, 2, 3, 3],
            arg_documents = twelve_pages, arg_metadatas = None,
            arg_ids = [''doc_0'', ''doc_1'', ''doc_2'', ''doc_3'', ''doc_4'', ''doc_5'', ''doc_6'',
                       ''doc_7'', ''doc_8'', ''doc_9'', ''doc_10'', ''doc_11'']\<rparr>"
    by code_simp
  have len: "length twelve_pages = 12" by (simp add: twelve_pages_def)
  from add_documents_default_ids [OF run]
  have each: "\<forall>i < 12. [''doc_0'', ''doc_1'', ''doc_2'', ''doc_3'', ''doc_4'', ''doc_5'', ''doc_6'',
                       ''doc_7'', ''doc_8'', ''doc_9'', ''doc_10'', ''doc_11''] ! i
                  = ''doc_'' @ str_nat i \<and> decimal_numeral (str_nat i) i"
    by (simp add: len)
  have a: "str_nat 11 = ''11''" and a': "decimal_numeral (str_nat 11) 11"
    using each [rule_format, of 11] by simp_all
  have b: "str_nat 0 = ''0''" and b': "decimal_numeral (str_nat 0) 0"
    using each [rule_format, of 0] by simp_all
  from a' b' have "decimal_numeral ''11'' 11" and "decimal_numeral ''0'' 0"
    unfolding a b by simp_all
  with a b run show ?thesis by simp
qed


subsection \<open>RAGChain.retrieve keeps the store's ranking\<close>

lemma retrieve_loop_ok:
  assumes ids: "res_ids results = [ids0]" and docs: "res_documents results = [docs0]"
    and dists: "res_distances results = [dists0]"
    and ld: "length docs0 = length ids0" and ldi: "length dists0 = length ids0"
    and meta: "case res_metadatas results of None \<Rightarrow> True
               | Some ms \<Rightarrow> (case ms of [metas0] \<Rightarrow> length metas0 = length ids0 | _ \<Rightarrow> False)"
  shows "\<forall>i \<in> set idxs. i < length ids0 \<Longrightarrow>
         \<exists>ds. retrieve_loop results idxs = Inr ds
              \<and> map doc_id ds = map ((!) ids0) idxs
              \<and> map document ds = map ((!) docs0) idxs
              \<and> map distance ds = map ((!) dists0) idxs"
proof (induction idxs)
  case Nil
  then show ?case by simp
next
  case (Cons i idxs)
  then have i: "i < length ids0" by simp
  have "\<exists>d. retrieved_at results i = Inr d \<and> doc_id d = ids0 ! i \<and> document d = docs0 ! i
            \<and> distance d = dists0 ! i"
    using i ids docs dists ld ldi meta
    by (auto simp: retrieved_at_def py_get_def truthy_def split: option.splits list.splits)
  moreover from Cons have "\<exists>ds. retrieve_loop results idxs = Inr ds
              \<and> map doc_id ds = map ((!) ids0) idxs
              \<and> map document ds = map ((!) docs0) idxs
              \<and> map distance ds = map ((!) dists0) idxs" by simp
  ultimately show ?case by auto
qed

lemma sorted_nearest:
  "sorted (map (\<lambda>e. dist q (st_embedding e)) (nearest dist entries k q))"
  unfolding nearest_def take_map [symmetric]
  by (rule sorted_wrt_take) (rule sorted_sort_key)

lemma length_nearest: "length (nearest dist entries k q) \<le> k"
  by (simp add: nearest_def)

lemma retrieve_of_match_row:
  assumes "embed_content query = Inr q" and "0 < n_results"
  shows "\<exists>docs. retrieve embed_content dist client collection_name query n_results = Inr docs
           \<and> map doc_id docs
               = map st_id (nearest dist (create_collection client collection_name)
                              (nat n_results) q)
           \<and> map document docs
               = map st_document (nearest dist (create_collection client collection_name)
                                    (nat n_results) q)
           \<and> map distance docs
               = map (\<lambda>e. dist q (st_embedding e))
                     (nearest dist (create_collection client collection_name)
                        (nat n_results) q)"
proof -
  let ?row = "nearest dist (create_collection client collection_name) (nat n_results) q"
  let ?results = "\<lparr>res_ids = [map st_id ?row], res_documents = [map st_document ?row],
                   res_metadatas = Some [map st_metadata ?row],
                   res_distances = [map (\<lambda>e. dist q (st_embedding e)) ?row]\<rparr>"
  have qc: "query_collection embed_content dist client collection_name query n_results
              = Inr ?results"
    using assms by (simp add: query_collection_def collection_query_def py_get_def Let_def)
  have "\<forall>i \<in> set [0..<length (map st_id ?row)]. i < length (map st_id ?row)" by simp
  from retrieve_loop_ok [of ?results "map st_id ?row" "map st_document ?row"
      "map (\<lambda>e. dist q (st_embedding e)) ?row", OF _ _ _ _ _ _ this]
  obtain ds where ds: "retrieve_loop ?results [0..<length (map st_id ?row)] = Inr ds"
    and a: "map doc_id ds = map ((!) (map st_id ?row)) [0..<length (map st_id ?row)]"
    and b: "map document ds = map ((!) (map st_document ?row)) [0..<length (map st_id ?row)]"
    and c: "map distance ds
              = map ((!) (map (\<lambda>e. dist q (st_embedding e)) ?row)) [0..<length (map st_id ?row)]"
    by auto
  have a': "map doc_id ds = map st_id ?row" using a by (simp only: map_nth)
  have b': "map document ds = map st_document ?row"
    using b map_nth [of "map st_document ?row"] by simp
  have c': "map distance ds = map (\<lambda>e. dist q (st_embedding e)) ?row"
    using c map_nth [of "map (\<lambda>e. dist q (st_embedding e)) ?row"] by simp
  have "retrieve embed_content dist client collection_name query n_results = Inr ds"
    using qc ds by (simp add: retrieve_def py_get_def)
  with a' b' c' show ?thesis by blast
qed

lemma retrieve_returns_cases:
  assumes "retrieve embed_content dist client collection_name query n_results = Inr docs"
  shows "0 < n_results \<and> (\<exists>q. embed_content query = Inr q)"
proof -
  have "0 < n_results"
  proof (rule ccontr)
    assume "\<not> 0 < n_results"
    then have "query_collection embed_content dist client collection_name query n_results
                 = Inl (ExternalError ''number of requested results must be positive'')
               \<or> (\<exists>e. embed_content query = Inl e)"
      by (auto simp: query_collection_def collection_query_def py_get_def split: sum.splits)
    then show False using assms
      by (auto simp: retrieve_def query_collection_def split: sum.splits)
  qed
  moreover have "\<exists>q. embed_content query = Inr q"
    using assms by (cases "embed_content query") (auto simp: retrieve_def query_collection_def)
  ultimately show ?thesis by simp
qed

text \<open>
  C7. Whatever the query and \<open>n_results\<close>, a list that \<open>retrieve\<close> returns has at most
  \<open>n_results\<close> records; they are the matches of the store's nearest-neighbour query for
  the embedded query text, in the store's order; and their distances do not decrease.
\<close>

theorem retrieve_ranked:
  assumes "retrieve embed_content dist client collection_name query n_results = Inr docs"
  shows "int (length docs) \<le> n_results
         \<and> (\<exists>q results. embed_content query = Inr q
               \<and> collection_query dist (create_collection client collection_name) [q] n_results
                   = Inr results
               \<and> [map doc_id docs] = res_ids results
               \<and> [map document docs] = res_documents results
               \<and> [map distance docs] = res_distances results)
         \<and> sorted (map distance docs)"
proof -
  from retrieve_returns_cases [OF assms] obtain q
    where pos: "0 < n_results" and q: "embed_content query = Inr q" by blast
  let ?row = "nearest dist (create_collection client collection_name) (nat n_results) q"
  from retrieve_of_match_row [of embed_content query q n_results dist client collection_name,
      OF q pos] assms
  have ids: "map doc_id docs = map st_id ?row"
    and documents: "map document docs = map st_document ?row"
    and distances: "map distance docs = map (\<lambda>e. dist q (st_embedding e)) ?row"
    by auto
  have "length docs = length ?row" using ids by (metis length_map)
  then have "int (length docs) \<le> n_results"
    using length_nearest [of dist "create_collection client collection_name" "nat n_results" q] pos
    by simp
  moreover have "sorted (map distance docs)"
    unfolding distances by (rule sorted_nearest)
  moreover have "collection_query dist (create_collection client collection_name) [q] n_results
      = Inr \<lparr>res_ids = [map st_id ?row], res_documents = [map st_document ?row],
              res_metadatas = Some [map st_metadata ?row],
              res_distances = [map (\<lambda>e. dist q (st_embedding e)) ?row]\<rparr>"
    using pos by (simp add: collection_query_def)
  ultimately show ?thesis using q ids documents distances by simp
qed

theorem retrieve_ranked_witness:
  "retrieve demo_embed demo_dist demo_client ''default_collection'' ''photosynthesis'' 2
     = Inr [\<lparr>doc_id = ''doc_1'', document = ''light reactions'',
              metadata = Some [(''source'', ''biology.pdf'')], distance = 2\<rparr>,
            \<lparr>doc_id = ''doc_0'', document = ''cell walls'',
              metadata = Some [(''source'', ''biology.pdf'')], distance = 26\<rparr>]
   \<and> int (length [''doc_1'', ''doc_0'']) \<le> 2
   \<and> sorted [2, 26 :: int]"
proof -
  have run: "retrieve demo_embed demo_dist demo_client ''default_collection'' ''photosynthesis'' 2
     = Inr [\<lparr>doc_id = ''doc_1'', document = ''light reactions'',
              metadata = Some [(''source'', ''biology.pdf'')], distance = 2\<rparr>,
            \<lparr>doc_id = ''doc_0'', document = ''cell walls'',
              metadata = Some [(''source'', ''biology.pdf'')], distance = 26\<rparr>]"
    by code_simp
  from retrieve_ranked [OF run] run show ?thesis by simp
qed

subsection \<open>Normalisation and the single-chunk case\<close>

lemma strip_rstrip: "strip s = rstrip (dropWhile is_space s)"
  by (simp add: strip_def rstrip_def)

lemma is_space_blank [simp]: "is_space CHR '' ''"
  by (simp add: is_space_def)

lemma re_sub_ws_word: "\<forall>c \<in> set w. \<not> is_space c \<Longrightarrow> re_sub_ws (w @ r) = w @ re_sub_ws r"
  by (induction w) simp_all

lemma re_sub_ws_hd: "s \<noteq> [] \<Longrightarrow> \<not> is_space (hd s) \<Longrightarrow> re_sub_ws s \<noteq> [] \<and> hd (re_sub_ws s) = hd s"
  by (cases s) simp_all

lemma dropWhile_re_sub_ws: "dropWhile is_space (re_sub_ws s) = re_sub_ws (dropWhile is_space s)"
proof (cases s)
  case Nil
  then show ?thesis by simp
next
  case (Cons c cs)
  let ?t = "dropWhile is_space cs"
  have t: "dropWhile is_space (re_sub_ws ?t) = re_sub_ws ?t"
  proof (cases ?t)
    case Nil
    show ?thesis unfolding Nil by simp
  next
    case (Cons d ds)
    then have "\<not> is_space d" by (metis hd_dropWhile list.sel(1) list.distinct(1))
    then show ?thesis using Cons by simp
  qed
  show ?thesis using Cons t by simp
qed

lemma rstrip_append:
  "\<exists>c \<in> set x. \<not> is_space c \<Longrightarrow> rstrip (a @ x) = a @ rstrip x"
proof -
  assume "\<exists>c \<in> set x. \<not> is_space c"
  then obtain c where "c \<in> set (rev x)" and "\<not> is_space c" by auto
  then have "dropWhile is_space (rev x @ rev a) = dropWhile is_space (rev x) @ rev a"
    by (rule dropWhile_append1)
  then show ?thesis by (simp add: rstrip_def)
qed

lemma rstrip_word: "\<forall>c \<in> set w. \<not> is_space c \<Longrightarrow> rstrip w = w"
proof -
  assume a: "\<forall>c \<in> set w. \<not> is_space c"
  then have "dropWhile is_space (rev w) = rev w"
    by (cases "rev w") (auto simp: dropWhile_eq_self_iff)
  then show ?thesis by (simp add: rstrip_def)
qed

lemma rstrip_word_blank: "\<forall>c \<in> set w. \<not> is_space c \<Longrightarrow> rstrip (w @ [CHR '' '']) = w"
  using rstrip_word [of w] by (simp add: rstrip_def)

lemma ws_words_dropWhile: "ws_words (dropWhile is_space s) = ws_words s"
  by (simp add: ws_words.simps [of s] ws_words.simps [of "dropWhile is_space s"] dropWhile_idem)

lemma rstrip_re_sub_ws:
  "t = [] \<or> \<not> is_space (hd t) \<Longrightarrow> rstrip (re_sub_ws t) = join_space (ws_words t)"
proof (induction t rule: length_induct)
  case (1 t)
  show ?case
  proof (cases t)
    case Nil
    then show ?thesis by (simp add: ws_words.simps rstrip_def)
  next
    case (Cons c cs)
    with 1(2) have c: "\<not> is_space c" by simp
    let ?w = "c # takeWhile (\<lambda>x. \<not> is_space x) cs"
    let ?r = "dropWhile (\<lambda>x. \<not> is_space x) cs"
    let ?r' = "dropWhile is_space ?r"
    have t: "t = ?w @ ?r" using Cons by simp
    have w: "\<forall>x \<in> set ?w. \<not> is_space x" using c by (auto dest: set_takeWhileD)
    have words: "ws_words t = ?w # ws_words ?r'"
      using c Cons by (simp add: ws_words.simps [of "c # cs"] ws_words_dropWhile)
    have sub: "re_sub_ws t = ?w @ re_sub_ws ?r"
      using re_sub_ws_word [OF w, of ?r] t by simp
    show ?thesis
    proof (cases ?r)
      case Nil
      have "re_sub_ws t = ?w" using sub unfolding Nil by simp
      moreover have "ws_words t = [?w]"
        using words unfolding Nil by (simp add: ws_words.simps [of "[]"])
      ultimately show ?thesis using rstrip_word [OF w] by simp
    next
      case r: (Cons d ds)
      then have d: "is_space d" by (metis hd_dropWhile list.sel(1) list.distinct(1))
      have r': "?r' = dropWhile is_space ds" using r d by simp
      have sub2: "re_sub_ws t = ?w @ CHR '' '' # re_sub_ws ?r'"
        using sub r d by simp
      have len: "length ?r' < length t"
      proof -
        have "length ?r' \<le> length ?r" by (rule length_dropWhile_le)
        also have "\<dots> \<le> length cs" by (rule length_dropWhile_le)
        finally show ?thesis using Cons by simp
      qed
      have hd': "?r' = [] \<or> \<not> is_space (hd ?r')"
        by (metis hd_dropWhile)
      from 1(1) len hd' have IH: "rstrip (re_sub_ws ?r') = join_space (ws_words ?r')"
        by blast
      show ?thesis
      proof (cases ?r')
        case Nil
        have "re_sub_ws t = ?w @ [CHR '' '']" using sub2 unfolding Nil by simp
        moreover have "ws_words t = [?w]"
          using words unfolding Nil by (simp add: ws_words.simps [of "[]"])
        ultimately show ?thesis using rstrip_word_blank [OF w] by simp
      next
        case r2: (Cons e es)
        with hd' have e: "\<not> is_space e" by simp
        have ne: "ws_words ?r' \<noteq> []"
          using r2 e by (simp add: ws_words.simps [of "e # es"])
        have "\<exists>x \<in> set (re_sub_ws ?r'). \<not> is_space x"
          using r2 e by auto
        then have "\<exists>x \<in> set (CHR '' '' # re_sub_ws ?r'). \<not> is_space x" by simp
        then have "rstrip (re_sub_ws t) = ?w @ rstrip (CHR '' '' # re_sub_ws ?r')"
          unfolding sub2 by (rule rstrip_append)
        also have "rstrip (CHR '' '' # re_sub_ws ?r') = CHR '' '' # rstrip (re_sub_ws ?r')"
          using rstrip_append [of "re_sub_ws ?r'" "[CHR '' '']"]
            \<open>\<exists>x \<in> set (re_sub_ws ?r'). \<not> is_space x\<close> by simp
        finally show ?thesis using IH words ne
          by (cases "ws_words ?r'") simp_all
      qed
    qed
  qed
qed

lemma clean_text_words: "clean_text text = join_space (ws_words text)"
proof -
  have "clean_text text = rstrip (re_sub_ws (dropWhile is_space text))"
    by (simp add: clean_text_def strip_rstrip dropWhile_re_sub_ws)
  also have "\<dots> = join_space (ws_words (dropWhile is_space text))"
    by (rule rstrip_re_sub_ws) (metis hd_dropWhile)
  finally show ?thesis by (simp add: ws_words_dropWhile)
qed


text \<open>
  C5. \<open>chunk_text\<close> first normalises its input: runs of whitespace collapse to one
  space and both ends are trimmed, so the words are joined by single spaces. When the
  normalised text has at most \<open>chunk_size\<close> characters, the result is the list holding
  exactly that text.
\<close>

theorem chunk_text_short:
  assumes "int (length (join_space (ws_words text))) \<le> chunk_size"
  shows "clean_text text = join_space (ws_words text)
         \<and> chunk_text fuel text chunk_size overlap = Some [join_space (ws_words text)]"
  using assms by (simp add: chunk_text_def clean_text_words)

theorem chunk_text_short_witness:
  "int (length (join_space (ws_words ''  Hello    world  ''))) \<le> 20
   \<and> join_space (ws_words ''  Hello    world  '') = ''Hello world''
   \<and> clean_text ''  Hello    world  '' = ''Hello world''
   \<and> chunk_text 0 ''  Hello    world  '' 20 5 = Some [''Hello world'']"
proof -
  have norm: "join_space (ws_words ''  Hello    world  '') = ''Hello world''"
    by code_simp
  then have short: "int (length (join_space (ws_words ''  Hello    world  ''))) \<le> 20"
    by simp
  from chunk_text_short [OF short, of 0 5] norm short show ?thesis by simp
qed

subsection \<open>The strict path of the parsers\<close>

lemma occurrences_iff:
  "i \<in> set (occurrences sub s) \<longleftrightarrow> i \<le> length s \<and> prefix sub (drop i s)"
  by (auto simp: occurrences_def simp del: upt_Suc)

lemma sorted_occurrences: "sorted (occurrences sub s)"
  unfolding occurrences_def by (rule sorted_wrt_filter) (simp del: upt_Suc)

lemma py_find_cases:
  "(py_find sub s = -1 \<and> occurrences sub s = [])
   \<or> (0 \<le> py_find sub s \<and> nat (py_find sub s) \<in> set (occurrences sub s)
      \<and> (\<forall>j \<in> set (occurrences sub s). py_find sub s \<le> int j))"
proof (cases "occurrences sub s")
  case Nil
  then show ?thesis by (simp add: py_find_def)
next
  case (Cons i rest)
  with sorted_occurrences [of sub s] have "\<forall>j \<in> set (i # rest). i \<le> j" by auto
  with Cons show ?thesis by (simp add: py_find_def)
qed

lemma py_rfind_cases:
  "(py_rfind sub s = -1 \<and> occurrences sub s = [])
   \<or> (0 \<le> py_rfind sub s \<and> nat (py_rfind sub s) \<in> set (occurrences sub s)
      \<and> (\<forall>j \<in> set (occurrences sub s). int j \<le> py_rfind sub s))"
proof (cases "rev (occurrences sub s)")
  case Nil
  then show ?thesis by (simp add: py_rfind_def)
next
  case (Cons i rest)
  then have occ: "occurrences sub s = rev rest @ [i]" by (metis rev_rev_ident rev.simps(2))
  with sorted_occurrences [of sub s] have "\<forall>j \<in> set (occurrences sub s). j \<le> i"
    by (auto simp: sorted_append)
  with Cons occ show ?thesis by (simp add: py_rfind_def)
qed

lemma py_find_prefix: "prefix sub s \<Longrightarrow> py_find sub s = 0"
proof -
  assume "prefix sub s"
  then have "0 \<in> set (occurrences sub s)" by (simp add: occurrences_iff)
  with py_find_cases [of sub s] show ?thesis by force
qed

lemma py_find_zero_prefix: "py_find sub s = 0 \<Longrightarrow> prefix sub s"
  using py_find_cases [of sub s] by (auto simp: occurrences_iff)

lemma py_rfind_suffix:
  assumes "suffix sub s" and "sub \<noteq> []"
  shows "py_rfind sub s = int (length s) - int (length sub)"
proof -
  from assms(1) obtain pre where s: "s = pre @ sub" by (auto simp: suffix_def)
  then have mem: "length pre \<in> set (occurrences sub s)" by (simp add: occurrences_iff)
  have upper: "\<forall>j \<in> set (occurrences sub s). j \<le> length pre"
  proof
    fix j assume "j \<in> set (occurrences sub s)"
    then have "prefix sub (drop j s)" by (simp add: occurrences_iff)
    then have "length sub \<le> length (drop j s)" by (rule prefix_length_le)
    with s assms(2) show "j \<le> length pre" by (cases sub) auto
  qed
  from py_rfind_cases [of sub s] mem
  have r: "0 \<le> py_rfind sub s" "nat (py_rfind sub s) \<in> set (occurrences sub s)"
    "int (length pre) \<le> py_rfind sub s" by auto
  from r(2) upper have "nat (py_rfind sub s) \<le> length pre" by blast
  with r(1,3) have "py_rfind sub s = int (length pre)" by linarith
  with s show ?thesis by simp
qed

lemma py_slice_all: "py_slice s 0 (int (length s)) = s"
  by (simp add: py_slice_def adjust_index_def)

lemma strict_path:
  assumes "prefix ''[{'' response" and "suffix ''}]'' response"
  shows "py_find ''[{'' response = 0"
    and "py_rfind ''}]'' response + 2 = int (length response)"
    and "0 < length response"
proof -
  show "py_find ''[{'' response = 0" using assms(1) by (rule py_find_prefix)
  show "py_rfind ''}]'' response + 2 = int (length response)"
    using py_rfind_suffix [OF assms(2)] by simp
  show "0 < length response" using assms(1) by (auto simp: prefix_def)
qed

text \<open>
  C6. A response that begins with \<open>[{\<close>, ends with \<open>}]\<close> and is a JSON document is
  handed whole to \<open>json.loads\<close>, and both parsers return the decoded value.
\<close>

theorem strict_path_round_trip:
  assumes "prefix ''[{'' response" and "suffix ''}]'' response"
    and "json_loads response = Some payload"
  shows "generate_mcqs json_loads response num_questions = payload
         \<and> generate_flashcards json_loads response num_cards = payload"
  using strict_path [OF assms(1,2)] assms(3)
  by (simp add: generate_mcqs_def generate_flashcards_def py_slice_all)

theorem strict_path_round_trip_witness:
  "prefix ''[{'' ''[{}]'' \<and> suffix ''}]'' ''[{}]''
   \<and> json_loads_example ''[{}]'' = Some (PList [PDict []])
   \<and> generate_mcqs json_loads_example ''[{}]'' 5 = PList [PDict []]
   \<and> generate_flashcards json_loads_example ''[{}]'' 10 = PList [PDict []]"
proof -
  have p: "prefix ''[{'' ''[{}]''" by simp
  have s: "suffix ''}]'' ''[{}]''" by (simp add: suffix_def)
  have l: "json_loads_example ''[{}]'' = Some (PList [PDict []])"
    by (simp add: json_loads_example_def)
  from strict_path_round_trip [of "''[{}]''" json_loads_example "PList [PDict []]" 5 10, OF p s l] p s l
  show ?thesis by simp
qed

subsection \<open>A response without structure\<close>

lemma bracketed_iff:
  "bracketed s \<longleftrightarrow>
     (\<exists>i \<in> set (occurrences ''[{'' s). \<exists>j \<in> set (occurrences ''}]'' s). i < j)"
  by (simp add: bracketed_def list_ex_iff)

lemma occurrence_chars:
  assumes "i \<in> set (occurrences [a, b] s)"
  shows "i + 1 < length s \<and> s ! i = a \<and> s ! (i + 1) = b"
proof -
  from assms have "prefix [a, b] (drop i s)" and i: "i \<le> length s"
    by (simp_all add: occurrences_iff)
  then obtain rest where d: "drop i s = a # b # rest" by (auto simp: prefix_def)
  have "s = take i s @ a # b # rest" using d by (metis append_take_drop_id)
  moreover have "length (take i s) = i" using i by simp
  ultimately have eq: "s = take i s @ a # b # rest" and len: "length (take i s) = i" by simp_all
  have "length s = i + 2 + length rest" using arg_cong [OF eq, of length] len by simp
  moreover have "s ! i = a" using eq len by (metis nth_append_length)
  moreover have "s ! (i + 1) = b"
  proof -
    have "s = (take i s @ [a]) @ b # rest" using eq by simp
    moreover have "length (take i s @ [a]) = i + 1" using len by simp
    ultimately show ?thesis by (metis nth_append_length)
  qed
  ultimately show ?thesis by simp
qed

lemma py_in_char: "py_in [c] s \<Longrightarrow> c \<in> set s"
proof -
  assume "py_in [c] s"
  then obtain i where "i \<in> set (occurrences [c] s)"
    by (cases "occurrences [c] s") (auto simp: py_in_def)
  then have "prefix [c] (drop i s)" by (simp add: occurrences_iff)
  then have "c \<in> set (drop i s)" by (auto simp: prefix_def)
  then show ?thesis by (rule in_set_dropD)
qed

lemma char_py_in: "c \<in> set s \<Longrightarrow> py_in [c] s"
proof -
  assume "c \<in> set s"
  then obtain xs ys where s: "s = xs @ c # ys" by (auto simp: in_set_conv_decomp)
  then have "length xs \<in> set (occurrences [c] s)" by (simp add: occurrences_iff)
  then show ?thesis by (auto simp: py_in_def)
qed

lemma py_split_from_chars:
  "piece \<in> set (py_split_from sep limit cur s) \<Longrightarrow> set piece \<subseteq> set cur \<union> set s"
proof (induction sep limit cur s rule: py_split_from.induct)
  case (1 sep limit cur)
  then show ?case by simp
next
  case (2 sep limit cur c cs)
  show ?case
  proof (cases "sep \<noteq> [] \<and> limit \<noteq> Some 0 \<and> prefix sep (c # cs)")
    case True
    with "2.prems" have "piece = cur \<or>
       piece \<in> set (py_split_from sep (map_option (\<lambda>n. n - 1) limit) [] (drop (length sep) (c # cs)))"
      by simp
    then show ?thesis
    proof
      assume "piece = cur" then show ?thesis by auto
    next
      assume "piece \<in> set (py_split_from sep (map_option (\<lambda>n. n - 1) limit) [] (drop (length sep) (c # cs)))"
      with "2.IH"(1) True have "set piece \<subseteq> set [] \<union> set (drop (length sep) (c # cs))" by blast
      moreover have "set (drop (length sep) (c # cs)) \<subseteq> set (c # cs)" by (rule set_drop_subset)
      ultimately show ?thesis by auto
    qed
  next
    case False
    with "2.prems" have "piece \<in> set (py_split_from sep limit (cur @ [c]) cs)" by auto
    with "2.IH"(2) False have "set piece \<subseteq> set (cur @ [c]) \<union> set cs" by blast
    then show ?thesis by auto
  qed
qed

lemma py_slice_subset: "set (py_slice xs a b) \<subseteq> set xs"
  unfolding py_slice_def Let_def
  by (meson set_take_subset set_drop_subset subset_trans)

lemma collect_nothing: "\<forall>q \<in> set qs. body q = Inr [] \<Longrightarrow> collect body qs = Inr []"
  by (induction qs) simp_all

lemma fallback_nothing:
  assumes "\<not> py_in ''?'' response"
  shows "collect parse_question (py_slice (py_split sep response) 0 n) = Inr []"
proof (rule collect_nothing, rule ballI)
  fix q assume "q \<in> set (py_slice (py_split sep response) 0 n)"
  then have "q \<in> set (py_split_from sep None [] response)"
    using py_slice_subset [of "py_split sep response" 0 n] by (auto simp: py_split_def)
  then have "set q \<subseteq> set response" using py_split_from_chars by fastforce
  moreover have "CHR ''?'' \<notin> set response" using assms char_py_in by blast
  ultimately have "\<not> py_in ''?'' q" using py_in_char by blast
  then show "parse_question q = Inr []" by (simp add: parse_question_def)
qed

lemma unbracketed_indices:
  assumes "\<not> bracketed response"
  shows "(prefix ''[{'' response \<longrightarrow>
            py_find ''[{'' response = 0 \<and> py_rfind ''}]'' response = - 1)
         \<and> (\<not> prefix ''[{'' response \<longrightarrow>
            \<not> (py_find ''[{'' response \<ge> 0
               \<and> py_rfind ''}]'' response + 2 > py_find ''[{'' response))"
proof (intro conjI impI)
  let ?f = "py_find ''[{'' response" and ?g = "py_rfind ''}]'' response"
  note F = py_find_cases [of "''[{''" response]
  note G = py_rfind_cases [of "''}]''" response]
  from assms have nb: "\<forall>i \<in> set (occurrences ''[{'' response).
                         \<forall>j \<in> set (occurrences ''}]'' response). \<not> i < j"
    by (simp add: bracketed_iff)
  {
    assume p: "prefix ''[{'' response"
    then show "?f = 0" by (rule py_find_prefix)
    show "?g = - 1"
    proof (rule ccontr)
      assume "?g \<noteq> - 1"
      with G have g: "nat ?g \<in> set (occurrences ''}]'' response)" by auto
      from p have z: "0 \<in> set (occurrences ''[{'' response)" by (simp add: occurrences_iff)
      have "\<not> 0 < nat ?g" by (rule nb [rule_format, OF z g])
      then have "nat ?g = 0" by simp
      with occurrence_chars [OF g] occurrence_chars [OF z] show False by simp
    qed
  }
  {
    assume np: "\<not> prefix ''[{'' response"
    show "\<not> (?f \<ge> 0 \<and> ?g + 2 > ?f)"
    proof
      assume a: "?f \<ge> 0 \<and> ?g + 2 > ?f"
      with F have f: "nat ?f \<in> set (occurrences ''[{'' response)" by auto
      from np have "?f \<noteq> 0" using py_find_zero_prefix by blast
      with a have fpos: "0 < ?f" by simp
      show False
      proof (cases "?g = - 1")
        case True
        with a fpos show False by simp
      next
        case False
        with G have g: "nat ?g \<in> set (occurrences ''}]'' response)" and g0: "0 \<le> ?g" by auto
        have "\<not> nat ?f < nat ?g" by (rule nb [rule_format, OF f g])
        with a g0 have "nat ?g = nat ?f \<or> nat ?g + 1 = nat ?f" by linarith
        with occurrence_chars [OF g] occurrence_chars [OF f] show False by auto
      qed
    qed
  }
qed

lemma slice_first: "prefix ''[{'' response \<Longrightarrow> py_slice response 0 1 = ''[''"
  by (auto simp: prefix_def py_slice_def adjust_index_def)

text \<open>
  C1. The claim is that a response with no \<open>[{\<close> followed by \<open>}]\<close>, no question mark
  and no \<open>A.\<close> or \<open>B.\<close> yields the one placeholder question. The answer
  \<open>Sorry, no quiz today\<close> takes the fallback branch, which finds no question and
  returns the empty list: the placeholder is returned only from the exception handler.
\<close>

theorem unstructured_response_counterexample:
  "\<not> bracketed ''Sorry, no quiz today''
   \<and> \<not> py_in ''?'' ''Sorry, no quiz today''
   \<and> \<not> py_in ''A.'' ''Sorry, no quiz today''
   \<and> \<not> py_in ''B.'' ''Sorry, no quiz today''
   \<and> generate_mcqs json_loads_example ''Sorry, no quiz today'' 5 = PList []
   \<and> PList [] \<noteq> mcq_placeholder"
proof -
  have nb: "\<not> bracketed ''Sorry, no quiz today''" by code_simp
  have nq: "\<not> py_in ''?'' ''Sorry, no quiz today''" by code_simp
  have na: "\<not> py_in ''A.'' ''Sorry, no quiz today''" by code_simp
  have nB: "\<not> py_in ''B.'' ''Sorry, no quiz today''" by code_simp
  have f: "py_find ''[{'' ''Sorry, no quiz today'' = - 1" by code_simp
  have fb: "collect parse_question
              (py_slice (py_split [newline, newline] ''Sorry, no quiz today'') 0 5) = Inr []"
    by (rule fallback_nothing [OF nq])
  have "generate_mcqs json_loads_example ''Sorry, no quiz today'' 5 = PList []"
    unfolding generate_mcqs_def Let_def f fb by simp
  moreover have "PList [] \<noteq> mcq_placeholder" by (simp add: mcq_placeholder_def)
  ultimately show ?thesis using nb nq na nB by simp
qed


text \<open>
  C1, amended. For such a response \<open>generate_mcqs\<close> always returns a value: the empty
  list, unless the response begins with \<open>[{\<close>. In that case the one character \<open>[\<close> is
  handed to \<open>json.loads\<close>, which rejects it, and the placeholder list is returned.
\<close>

theorem unstructured_response:
  assumes "\<not> bracketed response"
    and "\<not> py_in ''?'' response" and "\<not> py_in ''A.'' response" and "\<not> py_in ''B.'' response"
    and "json_loads ''['' = None"
  shows "generate_mcqs json_loads response num_questions
           = (if prefix ''[{'' response then mcq_placeholder else PList [])"
proof (cases "prefix ''[{'' response")
  case True
  with unbracketed_indices [OF assms(1)] slice_first [OF True] assms(5) show ?thesis
    by (simp add: generate_mcqs_def)
next
  case False
  with unbracketed_indices [OF assms(1)]
  have "\<not> (py_find ''[{'' response \<ge> 0
               \<and> py_rfind ''}]'' response + 2 > py_find ''[{'' response)" by blast
  then have cond: "(py_find ''[{'' response \<ge> 0
               \<and> py_rfind ''}]'' response + 2 > py_find ''[{'' response) = False" by simp
  show ?thesis
    unfolding generate_mcqs_def Let_def cond
    using False fallback_nothing [OF assms(2)] by simp
qed

theorem unstructured_response_witness:
  "\<not> bracketed ''[{ broken''
   \<and> \<not> py_in ''?'' ''[{ broken''
   \<and> \<not> py_in ''A.'' ''[{ broken''
   \<and> \<not> py_in ''B.'' ''[{ broken''
   \<and> json_loads_example ''['' = None
   \<and> generate_mcqs json_loads_example ''[{ broken'' 5 = mcq_placeholder"
proof -
  have nb: "\<not> bracketed ''[{ broken''" by code_simp
  have nq: "\<not> py_in ''?'' ''[{ broken''" by code_simp
  have na: "\<not> py_in ''A.'' ''[{ broken''" by code_simp
  have nB: "\<not> py_in ''B.'' ''[{ broken''" by code_simp
  have l: "json_loads_example ''['' = None" by (simp add: json_loads_example_def)
  from unstructured_response [of "''[{ broken''" json_loads_example 5, OF nb nq na nB l] nb nq na nB l
  show ?thesis by simp
qed


subsection \<open>The overlap of consecutive chunks\<close>

lemma window_end_unadjusted:
  "\<not> end_adjusted text chunk_size start \<Longrightarrow> window_end text chunk_size start = start + chunk_size"
  by (auto simp: end_adjusted_def window_end_def Let_def)

lemma chunk_loop_chunks:
  "chunk_loop fuel text chunk_size overlap start acc = Some chunks \<Longrightarrow>
   chunks = acc @ map (chunk_at text chunk_size) (loop_starts fuel text chunk_size overlap start)"
proof (induction fuel arbitrary: start acc)
  case 0
  then show ?case by (simp split: if_splits)
next
  case (Suc fuel)
  show ?case
  proof (cases "start < int (length text)")
    case True
    with Suc.prems
    have "chunk_loop fuel text chunk_size overlap (next_start text chunk_size overlap start)
            (acc @ [chunk_at text chunk_size start]) = Some chunks" by simp
    from Suc.IH [OF this] True show ?thesis by simp
  next
    case False
    with Suc.prems show ?thesis by simp
  qed
qed

lemma loop_starts_step:
  "Suc i < length (loop_starts fuel text chunk_size overlap start) \<Longrightarrow>
   loop_starts fuel text chunk_size overlap start ! Suc i
     = next_start text chunk_size overlap (loop_starts fuel text chunk_size overlap start ! i)"
proof (induction fuel arbitrary: start i)
  case 0
  then show ?case by simp
next
  case (Suc fuel)
  from Suc.prems have lt: "start < int (length text)" by (simp split: if_splits)
  let ?rest = "loop_starts fuel text chunk_size overlap (next_start text chunk_size overlap start)"
  from Suc.prems lt have len: "i < length ?rest" by simp
  show ?case
  proof (cases i)
    case 0
    with len lt show ?thesis by (cases fuel) (auto split: if_splits)
  next
    case (Suc j)
    with len have "Suc j < length ?rest" by simp
    from Suc.IH [OF this] lt Suc show ?thesis by simp
  qed
qed

lemma loop_starts_range:
  "0 \<le> start \<Longrightarrow> s \<in> set (loop_starts fuel text chunk_size overlap start) \<Longrightarrow>
   0 \<le> s \<and> s < int (length text)"
proof (induction fuel arbitrary: start)
  case 0
  then show ?case by simp
next
  case (Suc fuel)
  from Suc.prems(2) have lt: "start < int (length text)" by (simp split: if_splits)
  with Suc.prems(2) have "s = start \<or>
     s \<in> set (loop_starts fuel text chunk_size overlap (next_start text chunk_size overlap start))"
    by simp
  then show ?case
  proof
    assume "s = start" with Suc.prems(1) lt show ?thesis by simp
  next
    assume "s \<in> set (loop_starts fuel text chunk_size overlap (next_start text chunk_size overlap start))"
    with Suc.IH [OF next_start_nonneg] show ?thesis by blast
  qed
qed

lemma rfind_char_below_length: "rfind_char c s a b < int (length s)"
  using rfind_char_cases [of c s a b] by auto

lemma window_end_cases:
  "window_end t cs st = st + cs
   \<or> (\<exists>c \<in> {CHR ''.'', CHR ''?'', CHR ''!''}.
         rfind_char c t st (st + cs) \<noteq> - 1
         \<and> st + cs div 2 < rfind_char c t st (st + cs)
         \<and> window_end t cs st = rfind_char c t st (st + cs) + 1)
   \<or> (rfind_char CHR '' '' t st (st + cs) \<noteq> - 1
      \<and> window_end t cs st = rfind_char CHR '' '' t st (st + cs) + 1)"
proof -
  let ?a = "rfind_char CHR ''.'' t st (st + cs)"
  let ?b = "rfind_char CHR ''?'' t st (st + cs)"
  let ?c = "rfind_char CHR ''!'' t st (st + cs)"
  let ?L = "max (max ?a ?b) ?c"
  let ?sp = "rfind_char CHR '' '' t st (st + cs)"
  have L: "?L = ?a \<or> ?L = ?b \<or> ?L = ?c" by (simp add: max_def)
  have w: "window_end t cs st =
             (if st + cs < int (length t)
              then (if ?L \<noteq> - 1 \<and> ?L > st + cs div 2 then ?L + 1
                    else (if ?sp \<noteq> - 1 then ?sp + 1 else st + cs))
              else st + cs)"
    by (simp only: window_end_def Let_def)
  show ?thesis
  proof (cases "st + cs < int (length t)")
    case False
    from w have "window_end t cs st = st + cs" by (simp only: if_not_P [OF False])
    then show ?thesis by simp
  next
    case True
    from w have w1: "window_end t cs st =
             (if ?L \<noteq> - 1 \<and> ?L > st + cs div 2 then ?L + 1
              else (if ?sp \<noteq> - 1 then ?sp + 1 else st + cs))"
      by (simp only: if_P [OF True])
    show ?thesis
    proof (cases "?L \<noteq> - 1 \<and> ?L > st + cs div 2")
      case p: True
      from w1 have w2: "window_end t cs st = ?L + 1" by (simp only: if_P [OF p])
      from L show ?thesis
      proof (elim disjE)
        assume "?L = ?a" with p w2 show ?thesis by simp
      next
        assume "?L = ?b" with p w2 show ?thesis by simp
      next
        assume "?L = ?c" with p w2 show ?thesis by simp
      qed
    next
      case np: False
      from w1 have w2: "window_end t cs st = (if ?sp \<noteq> - 1 then ?sp + 1 else st + cs)"
        by (simp only: if_not_P [OF np])
      show ?thesis
      proof (cases "?sp \<noteq> - 1")
        case True
        from w2 have "window_end t cs st = ?sp + 1" by (simp only: if_P [OF True])
        with True show ?thesis by simp
      next
        case False
        from w2 have "window_end t cs st = st + cs" by (simp only: if_not_P [OF False])
        then show ?thesis by simp
      qed
    qed
  qed
qed

lemma rfind_char_next:
  "rfind_char c s a b \<noteq> - 1 \<Longrightarrow> rfind_char c s a b + 1 \<le> adjust_index (int (length s)) b"
  using rfind_char_cases [of c s a b] by auto

lemma adjust_index_below: "x < n \<Longrightarrow> 0 < n \<Longrightarrow> adjust_index n x < n"
  by (simp add: adjust_index_def)

lemma window_end_neg_size:
  assumes "chunk_size < 0" and "0 \<le> start" and "start < int (length text)"
  shows "window_end text chunk_size start < int (length text)"
proof -
  let ?n = "int (length text)"
  have "start + chunk_size < ?n" and "0 < ?n" using assms by linarith+
  then have b: "adjust_index ?n (start + chunk_size) < ?n"
    by (rule adjust_index_below)
  from window_end_cases [of "text" chunk_size start]
  consider "window_end text chunk_size start = start + chunk_size"
    | c where "rfind_char c text start (start + chunk_size) \<noteq> - 1"
        "window_end text chunk_size start = rfind_char c text start (start + chunk_size) + 1"
    by blast
  then show ?thesis
  proof cases
    case 1
    with assms show ?thesis by simp
  next
    case (2 c)
    from rfind_char_next [OF 2(1)] b 2(2) show ?thesis by simp
  qed
qed

lemma no_progress:
  assumes "0 < overlap" and "chunk_size < 0 \<or> chunk_size \<le> overlap"
    and "0 \<le> start" and "start < int (length text)"
  shows "next_start text chunk_size overlap start < int (length text)"
proof (cases "chunk_size < 0")
  case True
  from window_end_neg_size [OF True assms(3,4)] assms(1,3,4) show ?thesis
    by (auto simp: next_start_def Let_def)
next
  case False
  with assms(2) have "chunk_size \<le> overlap" and "0 \<le> chunk_size" by simp_all
  with window_end_upper [OF assms(3), of chunk_size "text"] assms(3,4) show ?thesis
    by (auto simp: next_start_def Let_def)
qed

lemma chunk_loop_no_return:
  assumes "0 < overlap" and "chunk_size < 0 \<or> chunk_size \<le> overlap"
  shows "0 \<le> start \<Longrightarrow> start < int (length text) \<Longrightarrow>
         chunk_loop fuel text chunk_size overlap start acc = None"
proof (induction fuel arbitrary: start acc)
  case 0
  then show ?case by simp
next
  case (Suc fuel)
  from no_progress [OF assms Suc.prems] next_start_nonneg [of "text" chunk_size overlap start]
  have "chunk_loop fuel text chunk_size overlap (next_start text chunk_size overlap start)
          (acc @ [chunk_at text chunk_size start]) = None"
    by (intro Suc.IH) 
  with Suc.prems show ?case by simp
qed

lemma returned_pair_sizes:
  assumes "chunk_text fuel text chunk_size overlap = Some chunks" and "Suc i < length chunks"
    and "0 < overlap"
  shows "0 \<le> chunk_size \<and> overlap < chunk_size"
proof (rule ccontr)
  assume "\<not> (0 \<le> chunk_size \<and> overlap < chunk_size)"
  then have bad: "chunk_size < 0 \<or> chunk_size \<le> overlap" by linarith
  let ?t = "clean_text text"
  from assms(1,2) have loop: "chunk_loop fuel ?t chunk_size overlap 0 [] = Some chunks"
    by (auto simp: chunk_text_def Let_def split: if_splits)
  show False
  proof (cases "0 < int (length ?t)")
    case True
    from chunk_loop_no_return [OF assms(3) bad _ True, of fuel "[]"] loop show False by simp
  next
    case False
    with loop have "chunks = []" by (cases fuel) simp_all
    with assms(2) show False by simp
  qed
qed

lemma rfind_char_ge:
  assumes "i < length t" and "adjust_index (int (length t)) a \<le> int i"
    and "int i < adjust_index (int (length t)) b" and "t ! i = c"
  shows "int i \<le> rfind_char c t a b"
proof -
  let ?n = "int (length t)"
  let ?P = "\<lambda>i. adjust_index ?n a \<le> int i \<and> int i < adjust_index ?n b \<and> t ! i = c"
  let ?ys = "filter ?P [0..<length t]"
  have mem: "i \<in> set ?ys" using assms by simp
  have srt: "sorted ?ys" by (rule sorted_wrt_filter) simp
  have rf: "filter ?P (rev [0..<length t]) = rev ?ys" by (simp add: rev_filter)
  show ?thesis
  proof (cases "rev ?ys")
    case Nil
    then have "?ys = []" by (simp only: rev_is_Nil_conv)
    then have e: "set ?ys = {}" by (simp only: set_empty)
    from mem have "i \<in> {}" unfolding e .
    then show ?thesis by simp
  next
    case (Cons j rest)
    then have ys: "?ys = rev rest @ [j]" by (metis rev_rev_ident rev.simps(2))
    with srt have "\<forall>x \<in> set ?ys. x \<le> j" by (auto simp: sorted_append)
    with mem have "i \<le> j" by blast
    moreover have "rfind_char c t a b = int j"
      unfolding rfind_char_def Let_def rf Cons by simp
    ultimately show ?thesis by simp
  qed
qed

lemma re_sub_ws_blank: "c \<in> set (re_sub_ws s) \<Longrightarrow> is_space c \<Longrightarrow> c = CHR '' ''"
proof (induction s rule: re_sub_ws.induct)
  case 1
  then show ?case by simp
next
  case (2 d ds)
  then show ?case by (cases "is_space d") auto
qed

lemma set_strip: "set (strip s) \<subseteq> set s"
proof -
  have "set (strip s) \<subseteq> set (rev (dropWhile is_space s))"
    unfolding strip_def set_rev by (auto dest: set_dropWhileD)
  also have "\<dots> \<subseteq> set s" by (auto dest: set_dropWhileD)
  finally show ?thesis .
qed

lemma clean_text_blank: "c \<in> set (clean_text text) \<Longrightarrow> is_space c \<Longrightarrow> c = CHR '' ''"
  using set_strip [of "re_sub_ws text"] re_sub_ws_blank [of c "text"]
  by (auto simp: clean_text_def)

lemma strip_word: "\<forall>c \<in> set w. \<not> is_space c \<Longrightarrow> strip w = w"
proof -
  assume a: "\<forall>c \<in> set w. \<not> is_space c"
  then have "dropWhile is_space w = w" by (cases w) auto
  moreover from a have "dropWhile is_space (rev w) = rev w" by (cases "rev w") auto
  ultimately show ?thesis by (simp add: strip_def)
qed

lemma strip_keeps_prefix:
  assumes "p \<noteq> []" and "\<forall>c \<in> set p. \<not> is_space c"
  shows "take (length p) (strip (p @ r)) = p"
proof -
  have head_kept: "dropWhile is_space (p @ r) = p @ r" using assms by (cases p) auto
  have tail_kept: "dropWhile is_space (rev p) = rev p"
    using assms by (cases "rev p") auto
  have "\<exists>z. dropWhile is_space (rev r @ rev p) = z @ rev p"
  proof (cases "\<forall>x \<in> set (rev r). is_space x")
    case True
    then have "dropWhile is_space (rev r @ rev p) = dropWhile is_space (rev p)"
      by (simp add: dropWhile_append)
    with tail_kept show ?thesis by simp
  next
    case False
    then have "dropWhile is_space (rev r @ rev p) = dropWhile is_space (rev r) @ rev p"
      by (auto simp: dropWhile_append)
    then show ?thesis by blast
  qed
  then obtain z where "dropWhile is_space (rev (p @ r)) = z @ rev p" by auto
  then have "strip (p @ r) = p @ rev z" by (simp add: strip_def head_kept)
  then show ?thesis by simp
qed

lemma py_slice_inside:
  assumes "0 \<le> a" and "a \<le> b" and "a \<le> int (length s)"
  shows "py_slice s a b = take (nat (min b (int (length s)) - a)) (drop (nat a) s)"
  using assms by (auto simp: py_slice_def adjust_index_def Let_def min_def)

lemma unadjusted_cases:
  assumes "\<not> end_adjusted t cs st" and "st + cs < int (length t)"
  shows "rfind_char CHR '' '' t st (st + cs) = - 1"
    and "c \<in> {CHR ''.'', CHR ''?'', CHR ''!''} \<Longrightarrow> 0 \<le> rfind_char c t st (st + cs) \<Longrightarrow>
         rfind_char c t st (st + cs) \<le> st + cs div 2"
proof -
  from assms show "rfind_char CHR '' '' t st (st + cs) = - 1"
    by (simp add: end_adjusted_def Let_def)
  assume c: "c \<in> {CHR ''.'', CHR ''?'', CHR ''!''}" and r: "0 \<le> rfind_char c t st (st + cs)"
  let ?L = "max (max (rfind_char CHR ''.'' t st (st + cs)) (rfind_char CHR ''?'' t st (st + cs)))
                (rfind_char CHR ''!'' t st (st + cs))"
  from c have le: "rfind_char c t st (st + cs) \<le> ?L" by auto
  with r have "?L \<noteq> - 1" by linarith
  with assms have "\<not> ?L > st + cs div 2" by (simp add: end_adjusted_def Let_def)
  with le show "rfind_char c t st (st + cs) \<le> st + cs div 2" by linarith
qed

lemma overlap_core:
  fixes t :: string and s cs ov :: int
  assumes norm: "\<forall>c \<in> set t. is_space c \<longrightarrow> c = CHR '' ''"
    and s0: "0 \<le> s" and ov0: "0 < ov" and ovc: "ov < cs"
    and inside: "s + cs < int (length t)"
    and un: "\<not> end_adjusted t cs s"
  shows "drop (length (chunk_at t cs s) - nat ov) (chunk_at t cs s)
           = take (nat ov) (chunk_at t cs (next_start t cs ov s))
         \<and> length (take (nat ov) (chunk_at t cs (next_start t cs ov s))) = nat ov"
proof -
  let ?n = "int (length t)"
  let ?e = "s + cs"
  let ?s' = "?e - ov"
  let ?W = "take (nat cs) (drop (nat s) t)"
  let ?p = "take (nat ov) (drop (nat ?s') t)"
  have we: "window_end t cs s = ?e" using un by (rule window_end_unadjusted)
  have adj_s: "adjust_index ?n s = s" and adj_e: "adjust_index ?n ?e = ?e"
    using s0 ov0 ovc inside by (simp_all add: adjust_index_def)
  have nospace: "t ! i \<noteq> CHR '' ''" if "s \<le> int i" and "int i < ?e" for i
  proof
    assume "t ! i = CHR '' ''"
    moreover from that inside have "i < length t" by simp
    ultimately have "int i \<le> rfind_char CHR '' '' t s ?e"
      using that adj_s adj_e by (intro rfind_char_ge) simp_all
    with unadjusted_cases(1) [OF un inside] show False by simp
  qed
  have W_slice: "py_slice t s ?e = ?W"
    using s0 ov0 ovc inside by (simp add: py_slice_inside min_def)
  have W_len: "length ?W = nat cs" using s0 inside by simp
  have W_clean: "\<forall>c \<in> set ?W. \<not> is_space c"
  proof
    fix c assume c: "c \<in> set ?W"
    then obtain j where j: "j < length ?W" and cj: "?W ! j = c" by (auto simp: in_set_conv_nth)
    from j W_len have jc: "j < nat cs" by simp
    have "?W ! j = t ! (nat s + j)" using j jc s0 inside by simp
    moreover have "t ! (nat s + j) \<noteq> CHR '' ''"
      using jc s0 by (intro nospace) simp_all
    ultimately have "c \<noteq> CHR '' ''" using cj by simp
    moreover have "c \<in> set t" using c by (meson in_set_takeD in_set_dropD)
    ultimately show "\<not> is_space c" using norm by blast
  qed
  have c1: "chunk_at t cs s = ?W"
    by (simp add: chunk_at_def we W_slice strip_word [OF W_clean])
  have ns: "next_start t cs ov s = ?s'"
    using s0 ovc by (simp add: next_start_def we)
  have s'0: "0 \<le> ?s'" "s \<le> ?s'" using s0 ovc by simp_all
  have p_drop: "drop (nat cs - nat ov) ?W = ?p"
  proof -
    have "drop (nat cs - nat ov) ?W = take (nat cs - (nat cs - nat ov)) (drop (nat cs - nat ov) (drop (nat s) t))"
      by (simp add: drop_take)
    moreover have "nat cs - (nat cs - nat ov) = nat ov" using ov0 ovc by simp
    moreover have "nat cs - nat ov + nat s = nat ?s'" using s0 ov0 ovc by simp
    ultimately show ?thesis by simp
  qed
  have p_len: "length ?p = nat ov" using s0 ov0 ovc inside by simp
  have p_ne: "?p \<noteq> []" using p_len ov0 by auto
  have p_clean: "\<forall>c \<in> set ?p. \<not> is_space c"
    using W_clean p_drop by (metis in_set_dropD)
  let ?e' = "window_end t cs ?s'"
  have adj_s': "adjust_index ?n ?s' = ?s'"
    using s'0 ov0 inside by (simp add: adjust_index_def)
  have e'_ge: "?e \<le> ?e'"
  proof -
    from window_end_cases [of t cs ?s']
    consider (hard) "?e' = ?s' + cs"
      | (period) c where "c \<in> {CHR ''.'', CHR ''?'', CHR ''!''}"
          "rfind_char c t ?s' (?s' + cs) \<noteq> - 1" "?s' + cs div 2 < rfind_char c t ?s' (?s' + cs)"
          "?e' = rfind_char c t ?s' (?s' + cs) + 1"
      | (blank) "rfind_char CHR '' '' t ?s' (?s' + cs) \<noteq> - 1"
          "?e' = rfind_char CHR '' '' t ?s' (?s' + cs) + 1"
      by blast
    then show ?thesis
    proof cases
      case hard
      then show ?thesis using ovc by simp
    next
      case (period c)
      let ?r = "rfind_char c t ?s' (?s' + cs)"
      from rfind_char_cases [of c t ?s' "?s' + cs"] period(2)
      have r: "?s' \<le> ?r" "?r < ?n" "t ! nat ?r = c" using adj_s' by auto
      show ?thesis
      proof (rule ccontr)
        assume "\<not> ?e \<le> ?e'"
        with period(4) have lt: "?r < ?e" by simp
        have "int (nat ?r) \<le> rfind_char c t s ?e"
          using r s'0 lt adj_s adj_e by (intro rfind_char_ge) simp_all
        then have ge: "?r \<le> rfind_char c t s ?e" using r s'0 by simp
        then have "0 \<le> rfind_char c t s ?e" using r s'0 by linarith
        from unadjusted_cases(2) [OF un inside period(1) this]
        have "rfind_char c t s ?e \<le> s + cs div 2" .
        with ge period(3) s'0 show False by linarith
      qed
    next
      case blank
      let ?r = "rfind_char CHR '' '' t ?s' (?s' + cs)"
      from rfind_char_cases [of "CHR '' ''" t ?s' "?s' + cs"] blank(1)
      have r: "?s' \<le> ?r" "?r < ?n" "t ! nat ?r = CHR '' ''" using adj_s' by auto
      show ?thesis
      proof (rule ccontr)
        assume "\<not> ?e \<le> ?e'"
        with blank(2) have lt: "?r < ?e" by simp
        have "t ! nat ?r \<noteq> CHR '' ''"
          using r s'0 lt by (intro nospace) simp_all
        with r(3) show False by simp
      qed
    qed
  qed
  let ?m = "nat (min ?e' ?n - ?s')"
  have slice2: "py_slice t ?s' ?e' = take ?m (drop (nat ?s') t)"
    using s'0 e'_ge ov0 inside by (intro py_slice_inside) simp_all
  have m_ge: "nat ov \<le> ?m" using e'_ge inside ov0 by simp
  have "take ?m (drop (nat ?s') t) = ?p @ take (?m - nat ov) (drop (nat ov) (drop (nat ?s') t))"
    using m_ge take_add [of "nat ov" "?m - nat ov" "drop (nat ?s') t"] by simp
  then have c2: "chunk_at t cs ?s' = strip (?p @ take (?m - nat ov) (drop (nat ov) (drop (nat ?s') t)))"
    by (simp only: chunk_at_def slice2)
  have "take (length ?p) (chunk_at t cs ?s') = ?p"
    unfolding c2 using p_ne p_clean by (rule strip_keeps_prefix)
  then have t2: "take (nat ov) (chunk_at t cs ?s') = ?p" using p_len by simp
  have "drop (length (chunk_at t cs s) - nat ov) (chunk_at t cs s) = ?p"
    unfolding c1 W_len by (rule p_drop)
  with t2 p_len show ?thesis unfolding ns by simp
qed

text \<open>
  C3. The claim is that two consecutive chunks whose windows were left unadjusted share
  exactly \<open>overlap\<close> characters. The loop goes on after a window has reached the end of
  the text, and the chunks cut there shrink: \<open>abcdefgh\<close> with \<open>chunk_size = 5\<close> and
  \<open>overlap = 3\<close> ends with the chunks \<open>efgh\<close> and \<open>gh\<close>, cut at 4 and 6 with no
  adjustment, and the last three characters of the first are not the first three of the
  second.
\<close>

theorem unadjusted_chunks_overlap_counterexample:
  "chunk_text 10 ''abcdefgh'' 5 3 = Some [''abcde'', ''cdefg'', ''efgh'', ''gh'']
   \<and> loop_starts 10 (clean_text ''abcdefgh'') 5 3 0 = [0, 2, 4, 6]
   \<and> \<not> end_adjusted (clean_text ''abcdefgh'') 5 4
   \<and> \<not> end_adjusted (clean_text ''abcdefgh'') 5 6
   \<and> drop (length ''efgh'' - nat 3) ''efgh'' \<noteq> take (nat 3) ''gh''"
  by code_simp


text \<open>
  C3, amended. Let two consecutive chunks of a returned list both come from windows left
  unadjusted (neither assignment to \<open>end\<close> in the search for a boundary was executed),
  the earlier window ending before the end of the text. Then the last
  \<open>overlap\<close> characters of the earlier chunk are the first \<open>overlap\<close> characters of the
  later one, and they are exactly \<open>overlap\<close> characters (none when \<open>overlap\<close> is
  negative).
\<close>

theorem unadjusted_chunks_overlap:
  assumes ret: "chunk_text fuel text chunk_size overlap = Some chunks"
    and i: "Suc i < length chunks"
    and un1: "\<not> end_adjusted (clean_text text) chunk_size
                 (loop_starts fuel (clean_text text) chunk_size overlap 0 ! i)"
    and un2: "\<not> end_adjusted (clean_text text) chunk_size
                 (loop_starts fuel (clean_text text) chunk_size overlap 0 ! Suc i)"
    and inside: "loop_starts fuel (clean_text text) chunk_size overlap 0 ! i + chunk_size
                   < int (length (clean_text text))"
  shows "drop (length (chunks ! i) - nat overlap) (chunks ! i)
           = take (nat overlap) (chunks ! Suc i)
         \<and> int (length (take (nat overlap) (chunks ! Suc i))) = max 0 overlap"
proof (cases "0 < overlap")
  case False
  then have "nat overlap = 0" by simp
  with False show ?thesis by simp
next
  case True
  let ?t = "clean_text text"
  let ?starts = "loop_starts fuel ?t chunk_size overlap 0"
  from returned_pair_sizes [OF ret i True] have sz: "overlap < chunk_size" by simp
  from ret i have loop: "chunk_loop fuel ?t chunk_size overlap 0 [] = Some chunks"
    by (auto simp: chunk_text_def Let_def split: if_splits)
  from chunk_loop_chunks [OF loop] have chunks: "chunks = map (chunk_at ?t chunk_size) ?starts"
    by simp
  then have len: "length ?starts = length chunks" by simp
  from i len have i': "Suc i < length ?starts" by simp
  have c1: "chunks ! i = chunk_at ?t chunk_size (?starts ! i)"
    using i' by (subst chunks) simp
  have c2: "chunks ! Suc i = chunk_at ?t chunk_size (next_start ?t chunk_size overlap (?starts ! i))"
    using i' loop_starts_step [OF i'] by (subst chunks) simp
  have "?starts ! i \<in> set ?starts" using i' by simp
  from loop_starts_range [OF _ this] have s0: "0 \<le> ?starts ! i" by simp
  have norm: "\<forall>c \<in> set ?t. is_space c \<longrightarrow> c = CHR '' ''"
    using clean_text_blank by blast
  from overlap_core [OF norm s0 True sz inside un1] True show ?thesis
    unfolding c1 c2 by simp
qed


theorem unadjusted_chunks_overlap_witness:
  "chunk_text 10 ''abcdefghijkl'' 5 2 = Some [''abcde'', ''defgh'', ''ghijk'', ''jkl'']
   \<and> loop_starts 10 (clean_text ''abcdefghijkl'') 5 2 0 = [0, 3, 6, 9]
   \<and> \<not> end_adjusted (clean_text ''abcdefghijkl'') 5 0
   \<and> \<not> end_adjusted (clean_text ''abcdefghijkl'') 5 3
   \<and> 0 + 5 < int (length (clean_text ''abcdefghijkl''))
   \<and> drop (length ''abcde'' - nat 2) ''abcde'' = take (nat 2) ''defgh''
   \<and> int (length (take (nat 2) ''defgh'')) = max 0 2"
proof -
  have run: "chunk_text 10 ''abcdefghijkl'' 5 2 = Some [''abcde'', ''defgh'', ''ghijk'', ''jkl'']"
    by code_simp
  have starts: "loop_starts 10 (clean_text ''abcdefghijkl'') 5 2 0 = [0, 3, 6, 9]"
    by code_simp
  have un1: "\<not> end_adjusted (clean_text ''abcdefghijkl'') 5 0" by code_simp
  have un2: "\<not> end_adjusted (clean_text ''abcdefghijkl'') 5 3" by code_simp
  have inside: "0 + 5 < int (length (clean_text ''abcdefghijkl''))" by code_simp
  have i: "Suc 0 < length [''abcde'', ''defgh'', ''ghijk'', ''jkl'']" by simp
  from unadjusted_chunks_overlap [OF run i] starts un1 un2 inside
  have "drop (length ''abcde'' - nat 2) ''abcde'' = take (nat 2) ''defgh''
        \<and> int (length (take (nat 2) ''defgh'')) = max 0 2"
    by simp
  with run starts un1 un2 inside show ?thesis by simp
qed

end
